theory Spec2Isabelle
  imports Complex_Main
begin

section \<open>Samples, formats and errors\<close>

text \<open>
  The three in-memory sample formats of the block store, the two fill modes of
  \<^verbatim>\<open>WaveTrack::Get\<close>, and the failures of the code as values: the two exception classes,
  a failed \<^verbatim>\<open>assert\<close>, and a load beyond the end of a buffer.  A sample value of any
  format is the real number it stands for.  A \<^verbatim>\<open>size_t\<close> is a \<open>nat\<close>: it counts
  samples of a buffer in memory.
\<close>

datatype sampleFormat = int16Sample | int24Sample | floatSample

datatype fillFormat = fillZero | fillTwo

datatype error = InconsistencyException | FileException | AssertionFailure | OutOfBounds

type_synonym sample = real

text \<open>
  \<^verbatim>\<open>SAMPLE_SIZE\<close>: the bytes of a sample in memory (a 24-bit sample is padded to 32
  bits).
\<close>

fun SAMPLE_SIZE :: "sampleFormat \<Rightarrow> nat" where
  "SAMPLE_SIZE int16Sample = 2"
| "SAMPLE_SIZE int24Sample = 4"
| "SAMPLE_SIZE floatSample = 4"

subsection \<open>Sample counts\<close>

text \<open>
  A \<^verbatim>\<open>sampleCount\<close> (Types.h is not among the sources) holds a signed 64-bit integer:
  it is an \<open>int\<close> between \<open>-2\<^sup>6\<^sup>3\<close> and \<open>2\<^sup>6\<^sup>3 - 1\<close>, and every sum and difference
  of the code is taken through \<open>wrap64\<close>, the two's complement wrap-around that the
  compiled code shows on overflow.  A \<^verbatim>\<open>size_t\<close> added to a sample count is converted
  to one first, which does not change the wrapped sum.
\<close>

type_synonym sampleCount = int

definition wrap64 :: "int \<Rightarrow> sampleCount" where
  "wrap64 x = (x + 9223372036854775808) mod 18446744073709551616 - 9223372036854775808"

subsection \<open>Floating-point numbers\<close>

text \<open>
  A \<^verbatim>\<open>double\<close> or \<^verbatim>\<open>float\<close> is the real number it stands for, and every
  floating-point operation of the code is the exact operation followed by rounding to the
  nearest value of the format, ties to the value with an even significand (IEEE 754).
  \<open>fl_round p m\<close> rounds to a format with \<open>p\<close> significant bits whose least
  positive value is \<open>2\<^sup>-\<^sup>m\<close>: the spacing of the format around \<open>x\<close> is
  \<open>quantum p m x\<close>, and \<open>ilog2 n\<close> is the position of the leading bit of \<open>n\<close>.
  The formats have no largest value here: infinities and NaN are not modelled.
\<close>

function ilog2 :: "int \<Rightarrow> nat" where
  "ilog2 n = (if n < 2 then 0 else Suc (ilog2 (n div 2)))"
  by pat_completeness auto
termination
  by (relation "measure nat") auto

definition round_even :: "real \<Rightarrow> int" where
  "round_even y =
     (let f = \<lfloor>y\<rfloor>; d = y - real_of_int f
      in if d < 1 / 2 then f else if 1 / 2 < d then f + 1 else if even f then f else f + 1)"

definition quantum :: "nat \<Rightarrow> nat \<Rightarrow> real \<Rightarrow> real" where
  "quantum p m x = 2 ^ (ilog2 \<lfloor>\<bar>x\<bar> * 2 ^ m\<rfloor> - (p - 1)) / 2 ^ m"

definition fl_round :: "nat \<Rightarrow> nat \<Rightarrow> real \<Rightarrow> real" where
  "fl_round p m x = real_of_int (round_even (x / quantum p m x)) * quantum p m x"

definition dbl :: "real \<Rightarrow> real" where
  "dbl = fl_round 53 1074"

definition flt :: "real \<Rightarrow> real" where
  "flt = fl_round 24 149"

text \<open>
  The conversion of a \<^verbatim>\<open>double\<close> to a sample count truncates towards zero.  Outside
  the 64-bit range C++ leaves the conversion undefined; the model takes the value the
  conversion instruction of x86-64 gives, \<open>-2\<^sup>6\<^sup>3\<close>.  \<^verbatim>\<open>as_double\<close> rounds a
  sample count to the nearest \<^verbatim>\<open>double\<close>.
\<close>

definition sampleCount_of :: "real \<Rightarrow> sampleCount" where
  "sampleCount_of d =
     (let z = (if d < 0 then \<lceil>d\<rceil> else \<lfloor>d\<rfloor>)
      in if - 9223372036854775808 \<le> z \<and> z < 9223372036854775808 then z
         else - 9223372036854775808)"

definition as_double :: "sampleCount \<Rightarrow> real" where
  "as_double n = dbl (real_of_int n)"

text \<open>
  The number system a conversion between times and sample positions is computed in: the
  rounding of a floating-point operation and the conversion of a floating-point number to
  a sample count.  \<open>machine\<close> is the arithmetic of the compiled code, \<open>exact\<close> is
  exact real arithmetic, in which nothing is rounded and no count is out of range.
\<close>

record arith =
  round_op :: "real \<Rightarrow> real"
  to_count :: "real \<Rightarrow> sampleCount"


definition exact :: arith where
  "exact = \<lparr>round_op = (\<lambda>x. x), to_count = floor\<rparr>"

subsection \<open>Buffers\<close>

text \<open>
  A \<^verbatim>\<open>samplePtr\<close> is a buffer, a list of the samples in memory, together with the
  index the pointer stands at.  \<open>poke buf p xs\<close> is the buffer after \<open>xs\<close> has been
  stored from index \<open>p\<close> on; a store beyond the end of the buffer, which is undefined
  in the code, shows as a longer list.
\<close>

definition poke :: "sample list \<Rightarrow> nat \<Rightarrow> sample list \<Rightarrow> sample list" where
  "poke buf p xs = take p buf @ xs @ drop (p + length xs) buf"

text \<open>
  Modelled from the spec: \<^verbatim>\<open>ClearSamples\<close> (SampleFormat.cpp is not among the sources)
  stores zeros (``reads beyond end-of-stream return zeros'') over \<open>len\<close> samples of
  format \<open>format\<close> from sample \<open>start\<close> of the pointer on, that is over
  \<open>len \<cdot> SAMPLE_SIZE format\<close> bytes.  \<open>bufFormat\<close> is the format of the samples the
  buffer really holds: where the two differ (a clear in the float format of a buffer of
  16-bit samples, in \<^verbatim>\<open>Sequence::Get\<close>), the bytes cleared are twice as many samples.
\<close>

definition ClearSamples ::
  "sampleFormat \<Rightarrow> sample list \<Rightarrow> nat \<Rightarrow> sampleFormat \<Rightarrow> nat \<Rightarrow> nat \<Rightarrow> sample list" where
  "ClearSamples bufFormat buf p format start len =
     poke buf (p + start * SAMPLE_SIZE format div SAMPLE_SIZE bufFormat)
       (replicate (len * SAMPLE_SIZE format div SAMPLE_SIZE bufFormat) 0)"

section \<open>Block files\<close>

text \<open>
  \<^verbatim>\<open>BlockFilePtr\<close>: a silent block (length and the summary members \<open>mMin\<close>,
  \<open>mMax\<close>, \<open>mRMS\<close>) or a simple block backed by a disk file (length, the format
  the file was written in, and the samples the file holds; \<open>None\<close> when the file cannot
  be opened).  The file may hold fewer samples than \<open>mLen\<close>.  The summary members of a
  disk-backed block (\<^verbatim>\<open>CalcSummary\<close>) are not modelled.
\<close>

datatype BlockFile =
    Silent (mLen: nat) (mMin: real) (mMax: real) (mRMS: real)
  | Simple (mLen: nat) (mFormat: sampleFormat) (disk: "sample list option")

definition GetLength :: "BlockFile \<Rightarrow> nat" where
  "GetLength f = mLen f"

text \<open>The constructor \<^verbatim>\<open>SilentBlockFile::SilentBlockFile(size_t sampleLen)\<close>.\<close>

definition SilentBlockFile :: "nat \<Rightarrow> BlockFile" where
  "SilentBlockFile sampleLen = Silent sampleLen 0 0 0"

text \<open>
  \<^verbatim>\<open>BlockFile::CommonReadData\<close> for a simple block.  \<open>conv src dst\<close> is the
  conversion of one sample from format \<open>src\<close> to format \<open>dst\<close> (libsndfile and
  \<^verbatim>\<open>CopySamples\<close>, neither among the sources).  The file delivers the samples it
  holds from \<open>start\<close> on, at most \<open>len\<close>; when it delivers fewer, the call throws if
  \<open>mayThrow\<close>, and clears the rest of the destination otherwise.  The result is the
  buffer and the number of frames read.
\<close>

definition CommonReadData ::
  "(sampleFormat \<Rightarrow> sampleFormat \<Rightarrow> sample \<Rightarrow> sample) \<Rightarrow> bool \<Rightarrow> sampleFormat \<Rightarrow> sample list option \<Rightarrow>
   sample list \<Rightarrow> nat \<Rightarrow> sampleFormat \<Rightarrow> nat \<Rightarrow> nat \<Rightarrow> error + (sample list \<times> nat)" where
  "CommonReadData conv mayThrow fileFormat file data p format start len =
     (let (data1, framesRead) =
        (case file of
           None \<Rightarrow> (poke data p (replicate len 0), 0)
         | Some d \<Rightarrow>
             (let frames = map (conv fileFormat format) (take len (drop start d))
              in (poke data p frames, length frames)))
      in if framesRead < len then
           (if mayThrow then Inl FileException
            else Inr (ClearSamples format data1 p format framesRead (len - framesRead), framesRead))
         else Inr (data1, framesRead))"

text \<open>
  The virtual \<^verbatim>\<open>ReadData\<close>: \<^verbatim>\<open>SilentBlockFile::ReadData\<close> clears \<open>len\<close> samples
  and returns \<open>len\<close>; \<^verbatim>\<open>SimpleBlockFile::ReadData\<close> (its cache is never active)
  is \<^verbatim>\<open>CommonReadData\<close>.
\<close>

fun ReadData ::
  "(sampleFormat \<Rightarrow> sampleFormat \<Rightarrow> sample \<Rightarrow> sample) \<Rightarrow> BlockFile \<Rightarrow>
   sample list \<Rightarrow> nat \<Rightarrow> sampleFormat \<Rightarrow> nat \<Rightarrow> nat \<Rightarrow> bool \<Rightarrow> error + (sample list \<times> nat)" where
  "ReadData conv (Silent n mn mx rms) data p format start len mayThrow =
     Inr (ClearSamples format data p format 0 len, len)"
| "ReadData conv (Simple n fileFormat file) data p format start len mayThrow =
     CommonReadData conv mayThrow fileFormat file data p format start len"

section \<open>Sequences, clips and tracks\<close>

text \<open>
  \<^verbatim>\<open>SeqBlock\<close> (members \<^verbatim>\<open>f\<close> and \<^verbatim>\<open>start\<close>), \<^verbatim>\<open>Sequence\<close>,
  \<^verbatim>\<open>Envelope\<close> (its control points and default value), \<^verbatim>\<open>WaveClip\<close> and
  \<^verbatim>\<open>WaveTrack\<close>.  An unallocated append buffer is the empty list.  The offsets are
  \<^verbatim>\<open>double\<close> values, the rates \<^verbatim>\<open>int\<close> values, gain and pan \<^verbatim>\<open>float\<close>
  values.  The cut lines and the change counter of a clip, the channel and the directory
  manager of a track are not modelled.
\<close>

record SeqBlock =
  sb_f :: BlockFile
  sb_start :: sampleCount

record Sequence =
  mBlock :: "SeqBlock list"
  mNumSamples :: sampleCount
  mSampleFormat :: sampleFormat
  mMinSamples :: nat
  mMaxSamples :: nat

record Envelope =
  mEnv :: "(real \<times> real) list"
  mDefaultValue :: real

record WaveClip =
  mOffset :: real
  mRate :: int
  mSequence :: Sequence
  mEnvelope :: Envelope
  mAppendBuffer :: "sample list"
  mAppendBufferLen :: nat

record WaveTrack =
  mClips :: "WaveClip list"
  mFormat :: sampleFormat
  mRate :: int
  mGain :: real
  mPan :: real
  mOffset :: real

subsection \<open>Time and sample positions\<close>

text \<open>
  \<^verbatim>\<open>WaveTrack::TimeToLongSamples\<close> and \<^verbatim>\<open>WaveTrack::LongSamplesToTime\<close>, in the
  arithmetic \<open>ar\<close>: the product and the sum, the conversion of the position to a
  \<^verbatim>\<open>double\<close> and the quotient are rounded.  The rate is an \<^verbatim>\<open>int\<close>, which every
  \<^verbatim>\<open>double\<close> holds exactly, and \<^verbatim>\<open>floor\<close> is exact.
\<close>

definition TimeToLongSamples :: "arith \<Rightarrow> WaveTrack \<Rightarrow> real \<Rightarrow> sampleCount" where
  "TimeToLongSamples ar t t0 =
     to_count ar (real_of_int
       \<lfloor>round_op ar (round_op ar (t0 * real_of_int (WaveTrack.mRate t)) + 1 / 2)\<rfloor>)"

definition LongSamplesToTime :: "arith \<Rightarrow> WaveTrack \<Rightarrow> sampleCount \<Rightarrow> real" where
  "LongSamplesToTime ar t pos =
     round_op ar (round_op ar (real_of_int pos) / real_of_int (WaveTrack.mRate t))"

text \<open>
  The positions of a clip, in the arithmetic of the compiled code.
\<close>

definition GetNumSamples :: "WaveClip \<Rightarrow> sampleCount" where
  "GetNumSamples c = mNumSamples (mSequence c)"

definition GetStartSample :: "WaveClip \<Rightarrow> sampleCount" where
  "GetStartSample c =
     sampleCount_of (real_of_int
       \<lfloor>dbl (dbl (WaveClip.mOffset c * real_of_int (WaveClip.mRate c)) + 1 / 2)\<rfloor>)"

definition GetEndSample :: "WaveClip \<Rightarrow> sampleCount" where
  "GetEndSample c = wrap64 (GetStartSample c + mNumSamples (mSequence c))"

definition BeforeClip :: "WaveClip \<Rightarrow> real \<Rightarrow> bool" where
  "BeforeClip c t =
     (let ts = sampleCount_of (real_of_int \<lfloor>dbl (dbl (t * real_of_int (WaveClip.mRate c)) + 1 / 2)\<rfloor>)
      in ts \<le> GetStartSample c)"

definition AfterClip :: "WaveClip \<Rightarrow> real \<Rightarrow> bool" where
  "AfterClip c t =
     (let ts = sampleCount_of (real_of_int \<lfloor>dbl (dbl (t * real_of_int (WaveClip.mRate c)) + 1 / 2)\<rfloor>)
      in ts \<ge> wrap64 (GetEndSample c + int (mAppendBufferLen c)))"

definition WithinClip :: "WaveClip \<Rightarrow> real \<Rightarrow> bool" where
  "WithinClip c t =
     (let ts = sampleCount_of (real_of_int \<lfloor>dbl (dbl (t * real_of_int (WaveClip.mRate c)) + 1 / 2)\<rfloor>)
      in ts > GetStartSample c \<and> ts < wrap64 (GetEndSample c + int (mAppendBufferLen c)))"

subsection \<open>Reading a sequence\<close>

text \<open>
  \<^verbatim>\<open>Sequence::FindBlock\<close>: a dictionary search for the block that holds \<open>pos\<close>.
  Each \<^verbatim>\<open>assert\<close> of the source, and the access \<^verbatim>\<open>mBlock[guess]\<close> outside the
  array, is a failure of the model.  The guess is computed in \<^verbatim>\<open>double\<close>; a quotient
  by zero and the conversion of a negative product to \<^verbatim>\<open>size_t\<close>, both without a
  defined value in the code, are 0 here.
\<close>

definition FindBlock_guess :: "sampleCount \<Rightarrow> nat \<Rightarrow> nat \<Rightarrow> sampleCount \<Rightarrow> sampleCount \<Rightarrow> nat" where
  "FindBlock_guess pos lo hi loSamples hiSamples =
     (let frac = dbl (as_double (wrap64 (pos - loSamples)) / as_double (wrap64 (hiSamples - loSamples)))
      in min (hi - 1) (lo + nat \<lfloor>dbl (frac * dbl (real (hi - lo)))\<rfloor>))"

function FindBlock_loop ::
  "SeqBlock list \<Rightarrow> sampleCount \<Rightarrow> nat \<Rightarrow> nat \<Rightarrow> sampleCount \<Rightarrow> sampleCount \<Rightarrow> error + nat" where
  "FindBlock_loop blocks pos lo hi loSamples hiSamples =
     (let guess = FindBlock_guess pos lo hi loSamples hiSamples
      in if \<not> guess < length blocks then Inl AssertionFailure
         else if \<not> 0 < GetLength (sb_f (blocks ! guess)) then Inl AssertionFailure
         else if \<not> (lo \<le> guess \<and> guess < hi \<and> lo < hi) then Inl AssertionFailure
         else if pos < sb_start (blocks ! guess) then
           (if lo = guess then Inl AssertionFailure
            else FindBlock_loop blocks pos lo guess loSamples (sb_start (blocks ! guess)))
         else if pos < wrap64 (sb_start (blocks ! guess) + int (GetLength (sb_f (blocks ! guess)))) then
           Inr guess
         else if \<not> guess < hi - 1 then Inl AssertionFailure
         else FindBlock_loop blocks pos (guess + 1) hi
                (wrap64 (sb_start (blocks ! guess) + int (GetLength (sb_f (blocks ! guess))))) hiSamples)"
  by pat_completeness auto
termination
  apply (relation "measure (\<lambda>(blocks, pos, lo, hi, loSamples, hiSamples). hi - lo)")
    apply simp
   apply simp
   apply linarith
  apply simp
  apply linarith
  done

definition FindBlock :: "Sequence \<Rightarrow> sampleCount \<Rightarrow> error + nat" where
  "FindBlock s pos =
     (if \<not> (0 \<le> pos \<and> pos < mNumSamples s) then Inl AssertionFailure
      else if pos = 0 then Inr 0
      else FindBlock_loop (mBlock s) pos 0 (length (mBlock s)) 0 (mNumSamples s))"

text \<open>
  \<^verbatim>\<open>Sequence::Read\<close>: one block file read; the flag tells whether all \<open>len\<close>
  samples were really read.
\<close>

definition Sequence_Read ::
  "(sampleFormat \<Rightarrow> sampleFormat \<Rightarrow> sample \<Rightarrow> sample) \<Rightarrow> sample list \<Rightarrow> nat \<Rightarrow> sampleFormat \<Rightarrow>
   SeqBlock \<Rightarrow> nat \<Rightarrow> nat \<Rightarrow> bool \<Rightarrow> error + (sample list \<times> bool)" where
  "Sequence_Read conv buffer p format b blockRelativeStart len mayThrow =
     (if \<not> blockRelativeStart + len \<le> GetLength (sb_f b) then Inl AssertionFailure
      else case ReadData conv (sb_f b) buffer p format blockRelativeStart len mayThrow of
             Inl e \<Rightarrow> Inl e
           | Inr (buffer', result) \<Rightarrow> Inr (buffer', result = len))"

text \<open>
  The loop of \<^verbatim>\<open>Sequence::Get(int b, ...)\<close>: block after block from block \<open>b\<close> on,
  until \<open>len\<close> samples are read.  \<open>result\<close> is the flag accumulated so far.  A start
  before the block (\<^verbatim>\<open>as_size_t\<close> of a negative count), a start beyond the end of
  the block (the unsigned difference wraps and the assertion of \<^verbatim>\<open>Read\<close> fails) and a
  block index outside the array are failures.
\<close>

function Sequence_Get_from ::
  "(sampleFormat \<Rightarrow> sampleFormat \<Rightarrow> sample \<Rightarrow> sample) \<Rightarrow> SeqBlock list \<Rightarrow> nat \<Rightarrow> sample list \<Rightarrow> nat \<Rightarrow>
   sampleFormat \<Rightarrow> sampleCount \<Rightarrow> nat \<Rightarrow> bool \<Rightarrow> bool \<Rightarrow> error + (sample list \<times> bool)" where
  "Sequence_Get_from conv blocks b buffer p format start len mayThrow result =
     (if len = 0 then Inr (buffer, result)
      else if \<not> b < length blocks then Inl AssertionFailure
      else if wrap64 (start - sb_start (blocks ! b)) < 0 then Inl AssertionFailure
      else
        (let bstart = nat (wrap64 (start - sb_start (blocks ! b)));
             blen = min len (GetLength (sb_f (blocks ! b)) - bstart)
         in if GetLength (sb_f (blocks ! b)) < bstart then Inl AssertionFailure
            else case Sequence_Read conv buffer p format (blocks ! b) bstart blen mayThrow of
                   Inl e \<Rightarrow> Inl e
                 | Inr (buffer', ok) \<Rightarrow>
                     Sequence_Get_from conv blocks (b + 1) buffer' (p + blen) format
                       (wrap64 (start + int blen)) (len - blen) mayThrow (result \<and> ok)))"
  by pat_completeness auto
termination
  by (relation "measure (\<lambda>(conv, blocks, b, buffer, p, format, start, len, mayThrow, result).
                  length blocks - b)") auto

text \<open>
  \<^verbatim>\<open>Sequence::Get\<close>.  A request outside the sequence throws, or with \<open>mayThrow\<close>
  false clears \<open>len\<close> samples in the float format whatever the format of the buffer.
\<close>

definition Sequence_Get ::
  "(sampleFormat \<Rightarrow> sampleFormat \<Rightarrow> sample \<Rightarrow> sample) \<Rightarrow> Sequence \<Rightarrow> sample list \<Rightarrow> nat \<Rightarrow>
   sampleFormat \<Rightarrow> sampleCount \<Rightarrow> nat \<Rightarrow> bool \<Rightarrow> error + (sample list \<times> bool)" where
  "Sequence_Get conv s buffer p format start len mayThrow =
     (if start = mNumSamples s then Inr (buffer, len = 0)
      else if start < 0 \<or> wrap64 (start + int len) > mNumSamples s then
        (if mayThrow then Inl InconsistencyException
         else Inr (ClearSamples format buffer p floatSample 0 len, False))
      else case FindBlock s start of
             Inl e \<Rightarrow> Inl e
           | Inr b \<Rightarrow> Sequence_Get_from conv (mBlock s) b buffer p format start len mayThrow True)"

subsection \<open>Reading a clip and a track\<close>

definition GetSamples ::
  "(sampleFormat \<Rightarrow> sampleFormat \<Rightarrow> sample \<Rightarrow> sample) \<Rightarrow> WaveClip \<Rightarrow> sample list \<Rightarrow> nat \<Rightarrow>
   sampleFormat \<Rightarrow> sampleCount \<Rightarrow> nat \<Rightarrow> bool \<Rightarrow> error + (sample list \<times> bool)" where
  "GetSamples conv c buffer p format start len mayThrow =
     Sequence_Get conv (mSequence c) buffer p format start len mayThrow"

text \<open>
  The first loop of \<^verbatim>\<open>WaveTrack::Get\<close>: the buffer is cleared unless the request lies
  within one clip.
\<close>

fun Get_doClear :: "WaveClip list \<Rightarrow> sampleCount \<Rightarrow> nat \<Rightarrow> bool" where
  "Get_doClear [] start len = True"
| "Get_doClear (clip # clips) start len =
     (if start \<ge> GetStartSample clip \<and> wrap64 (start + int len) \<le> GetEndSample clip then False
      else Get_doClear clips start len)"

text \<open>
  The second loop of \<^verbatim>\<open>WaveTrack::Get\<close>: every clip that overlaps the request stores
  its part.  \<open>result\<close> and \<open>samplesCopied\<close> are the values accumulated so far.
\<close>

fun Get_clips ::
  "(sampleFormat \<Rightarrow> sampleFormat \<Rightarrow> sample \<Rightarrow> sample) \<Rightarrow> WaveClip list \<Rightarrow> sample list \<Rightarrow> nat \<Rightarrow>
   sampleFormat \<Rightarrow> sampleCount \<Rightarrow> nat \<Rightarrow> bool \<Rightarrow> bool \<Rightarrow> sampleCount \<Rightarrow>
   error + (sample list \<times> bool \<times> sampleCount)" where
  "Get_clips conv [] buffer p format start len mayThrow result samplesCopied =
     Inr (buffer, result, samplesCopied)"
| "Get_clips conv (clip # clips) buffer p format start len mayThrow result samplesCopied =
     (let clipStart = GetStartSample clip; clipEnd = GetEndSample clip
      in if clipEnd > start \<and> clipStart < wrap64 (start + int len) then
           (let samplesToCopy0 = min (wrap64 (wrap64 (start + int len) - clipStart)) (GetNumSamples clip);
                startDelta0 = wrap64 (clipStart - start);
                inclipDelta = (if startDelta0 < 0 then wrap64 (- startDelta0) else 0);
                samplesToCopy = (if startDelta0 < 0 then wrap64 (samplesToCopy0 - inclipDelta)
                                 else samplesToCopy0);
                startDelta = (if startDelta0 < 0 then 0 else startDelta0)
            in if samplesToCopy < 0 then Inl AssertionFailure
               else case GetSamples conv clip buffer (p + nat startDelta) format inclipDelta
                           (nat samplesToCopy) mayThrow of
                      Inl e \<Rightarrow> Inl e
                    | Inr (buffer', ok) \<Rightarrow>
                        if \<not> ok then
                          Get_clips conv clips buffer' p format start len mayThrow False samplesCopied
                        else
                          Get_clips conv clips buffer' p format start len mayThrow result
                            (wrap64 (samplesCopied + samplesToCopy)))
         else Get_clips conv clips buffer p format start len mayThrow result samplesCopied)"

text \<open>
  \<^verbatim>\<open>WaveTrack::Get\<close>: the buffer, the returned flag and the number of samples copied.
  With \<open>fillTwo\<close> the source asserts the float format; its branch for any other fill
  value is not reachable with the two values of the enumeration.
\<close>

definition WaveTrack_Get ::
  "(sampleFormat \<Rightarrow> sampleFormat \<Rightarrow> sample \<Rightarrow> sample) \<Rightarrow> WaveTrack \<Rightarrow> sample list \<Rightarrow> nat \<Rightarrow>
   sampleFormat \<Rightarrow> sampleCount \<Rightarrow> nat \<Rightarrow> fillFormat \<Rightarrow> bool \<Rightarrow>
   error + (sample list \<times> bool \<times> sampleCount)" where
  "WaveTrack_Get conv t buffer p format start len fill mayThrow =
     (if Get_doClear (mClips t) start len then
        (case fill of
           fillZero \<Rightarrow>
             Get_clips conv (mClips t) (ClearSamples format buffer p format 0 len) p format start len
               mayThrow True 0
         | fillTwo \<Rightarrow>
             if format \<noteq> floatSample then Inl AssertionFailure
             else Get_clips conv (mClips t) (poke buffer p (replicate len 2)) p format start len
                    mayThrow True 0)
      else Get_clips conv (mClips t) buffer p format start len mayThrow True 0)"


subsection \<open>The mixing path\<close>

text \<open>
  \<^verbatim>\<open>MixBuffers\<close> (Mix.cpp): for every channel whose flag is set, the samples of
  \<open>src\<close>, scaled by the gain of the channel, are added to the destination, sample by
  sample in \<^verbatim>\<open>float\<close> arithmetic.  When \<open>interleaved\<close>, channel \<open>c\<close> goes to the
  positions \<open>c\<close>, \<open>c + numChannels\<close>, \<open>\<dots>\<close> of the first destination buffer,
  otherwise to the buffer \<open>c\<close>.  An access beyond the end of an array is a failure.
\<close>

function MixBuffers_samples ::
  "real \<Rightarrow> sample list \<Rightarrow> int \<Rightarrow> nat \<Rightarrow> nat \<Rightarrow> sample list \<Rightarrow> nat \<Rightarrow> error + sample list" where
  "MixBuffers_samples gain temp len skip j dest pos =
     (if \<not> int j < len then Inr dest
      else if \<not> (j < length temp \<and> pos < length dest) then Inl OutOfBounds
      else MixBuffers_samples gain temp len skip (j + 1)
             (dest[pos := flt (dest ! pos + flt (temp ! j * gain))]) (pos + skip))"
  by pat_completeness auto
termination
  by (relation "measure (\<lambda>(gain, temp, len, skip, j, dest, pos). nat (len - int j))") auto

function MixBuffers_channels ::
  "nat \<Rightarrow> int list \<Rightarrow> real list \<Rightarrow> sample list \<Rightarrow> int \<Rightarrow> bool \<Rightarrow> nat \<Rightarrow> sample list list \<Rightarrow>
   error + sample list list" where
  "MixBuffers_channels numChannels channelFlags gains src len interleaved c dests =
     (if \<not> c < numChannels then Inr dests
      else if \<not> c < length channelFlags then Inl OutOfBounds
      else if channelFlags ! c = 0 then
        MixBuffers_channels numChannels channelFlags gains src len interleaved (c + 1) dests
      else
        (let b = (if interleaved then 0 else c);
             first = (if interleaved then c else 0);
             skip = (if interleaved then numChannels else 1)
         in if \<not> (b < length dests \<and> c < length gains) then Inl OutOfBounds
            else case MixBuffers_samples (gains ! c) src len skip 0 (dests ! b) first of
                   Inl e \<Rightarrow> Inl e
                 | Inr dest \<Rightarrow>
                     MixBuffers_channels numChannels channelFlags gains src len interleaved (c + 1)
                       (dests[b := dest])))"
  by pat_completeness auto
termination
  by (relation "measure (\<lambda>(numChannels, channelFlags, gains, src, len, interleaved, c, dests).
                  numChannels - c)") auto





subsection \<open>The samples a track holds\<close>

text \<open>
  What a block file delivers, sample by sample, in format \<open>format\<close>: a silent block
  zeros, a simple block the samples of its file, and zero where the file has none.
  \<open>blockComplete\<close> tells that the file holds all \<open>mLen\<close> samples.
\<close>

fun blockData ::
  "(sampleFormat \<Rightarrow> sampleFormat \<Rightarrow> sample \<Rightarrow> sample) \<Rightarrow> sampleFormat \<Rightarrow> BlockFile \<Rightarrow> sample list" where
  "blockData conv format (Silent n mn mx rms) = replicate n 0"
| "blockData conv format (Simple n fileFormat None) = replicate n 0"
| "blockData conv format (Simple n fileFormat (Some d)) =
     map (conv fileFormat format) (take n d) @ replicate (n - length d) 0"

fun blockComplete :: "BlockFile \<Rightarrow> bool" where
  "blockComplete (Silent n mn mx rms) = True"
| "blockComplete (Simple n fileFormat None) = (n = 0)"
| "blockComplete (Simple n fileFormat (Some d)) = (n \<le> length d)"

definition blocksData ::
  "(sampleFormat \<Rightarrow> sampleFormat \<Rightarrow> sample \<Rightarrow> sample) \<Rightarrow> sampleFormat \<Rightarrow> SeqBlock list \<Rightarrow> sample list" where
  "blocksData conv format bs = concat (map (\<lambda>b. blockData conv format (sb_f b)) bs)"

definition seqData ::
  "(sampleFormat \<Rightarrow> sampleFormat \<Rightarrow> sample \<Rightarrow> sample) \<Rightarrow> sampleFormat \<Rightarrow> Sequence \<Rightarrow> sample list" where
  "seqData conv format s = blocksData conv format (mBlock s)"

definition blocksComplete :: "SeqBlock list \<Rightarrow> bool" where
  "blocksComplete bs = list_all (\<lambda>b. blockComplete (sb_f b)) bs"

definition seqComplete :: "Sequence \<Rightarrow> bool" where
  "seqComplete s = blocksComplete (mBlock s)"

text \<open>
  The invariant of a sequence (what \<^verbatim>\<open>Sequence::ConsistencyCheck\<close> and the assertion
  of \<^verbatim>\<open>FindBlock\<close> demand): the blocks are not empty, each starts where the one before
  ends, the first at 0, and the last ends at \<open>mNumSamples\<close>.
\<close>

fun chain :: "SeqBlock list \<Rightarrow> sampleCount \<Rightarrow> sampleCount \<Rightarrow> bool" where
  "chain [] pos n = (pos = n)"
| "chain (b # bs) pos n =
     (sb_start b = pos \<and> 0 < GetLength (sb_f b) \<and> chain bs (pos + int (GetLength (sb_f b))) n)"

definition consistent :: "Sequence \<Rightarrow> bool" where
  "consistent s = chain (mBlock s) 0 (mNumSamples s)"

text \<open>
  The sample of a track at an absolute position: the sample of the clip that covers the
  position, and zero where no clip does.  The positions \<open>a \<le> b\<close> are within reach
  when they lie between \<open>-2\<^sup>6\<^sup>2\<close> and \<open>2\<^sup>6\<^sup>2\<close>, where no sum or difference of
  two positions wraps.  The clips of a well-formed track have consistent sequences, start
  and end within reach, and do not overlap.
\<close>

definition in_reach :: "sampleCount \<Rightarrow> sampleCount \<Rightarrow> bool" where
  "in_reach a b = (- 4611686018427387904 \<le> a \<and> a \<le> b \<and> b < 4611686018427387904)"

definition clip_in_reach :: "WaveClip \<Rightarrow> bool" where
  "clip_in_reach c = in_reach (GetStartSample c) (GetStartSample c + mNumSamples (mSequence c))"

definition covers :: "sampleCount \<Rightarrow> WaveClip \<Rightarrow> bool" where
  "covers pos c = (GetStartSample c \<le> pos \<and> pos < GetEndSample c)"

definition clipSample ::
  "(sampleFormat \<Rightarrow> sampleFormat \<Rightarrow> sample \<Rightarrow> sample) \<Rightarrow> sampleFormat \<Rightarrow> WaveClip \<Rightarrow> sampleCount \<Rightarrow> sample" where
  "clipSample conv format c pos = seqData conv format (mSequence c) ! nat (pos - GetStartSample c)"

definition trackSample ::
  "(sampleFormat \<Rightarrow> sampleFormat \<Rightarrow> sample \<Rightarrow> sample) \<Rightarrow> sampleFormat \<Rightarrow> WaveClip list \<Rightarrow> sampleCount \<Rightarrow> sample" where
  "trackSample conv format clips pos =
     (case find (covers pos) clips of None \<Rightarrow> 0 | Some c \<Rightarrow> clipSample conv format c pos)"

fun clips_disjoint :: "WaveClip list \<Rightarrow> bool" where
  "clips_disjoint [] = True"
| "clips_disjoint (c # cs) =
     (list_all (\<lambda>d. GetEndSample c \<le> GetStartSample d \<or> GetEndSample d \<le> GetStartSample c) cs
      \<and> clips_disjoint cs)"

definition wellformed :: "WaveClip list \<Rightarrow> bool" where
  "wellformed clips =
     (list_all (\<lambda>c. consistent (mSequence c)) clips \<and> list_all clip_in_reach clips
      \<and> clips_disjoint clips)"

definition allComplete :: "WaveClip list \<Rightarrow> bool" where
  "allComplete clips = list_all (\<lambda>c. seqComplete (mSequence c)) clips"

subsection \<open>Appending to a sequence\<close>

text \<open>
  Modelled from the spec: \<^verbatim>\<open>CopySamples\<close> (SampleFormat.cpp is not among the sources)
  stores \<open>len\<close> samples of \<open>src\<close>, converted sample by sample from \<open>srcFormat\<close> to
  \<open>dstFormat\<close>, at the destination pointer (``appends 32-bit floats''); the stride is 1.
  \<^verbatim>\<open>DirManager::NewSimpleBlockFile\<close> constructs a \<^verbatim>\<open>SimpleBlockFile\<close>, which writes
  the first \<open>sampleLen\<close> samples of its buffer to a new file and throws a
  \<^verbatim>\<open>FileException\<close> when \<^verbatim>\<open>WriteSimpleBlockFile\<close> cannot open the file;
  \<open>fileOpens\<close> tells whether block files can be opened for writing.
\<close>

definition CopySamples ::
  "(sampleFormat \<Rightarrow> sampleFormat \<Rightarrow> sample \<Rightarrow> sample) \<Rightarrow> sample list \<Rightarrow> sampleFormat \<Rightarrow>
   sample list \<Rightarrow> nat \<Rightarrow> sampleFormat \<Rightarrow> nat \<Rightarrow> sample list" where
  "CopySamples conv src srcFormat dst p dstFormat len =
     poke dst p (map (conv srcFormat dstFormat) (take len src))"

definition NewSimpleBlockFile :: "bool \<Rightarrow> sample list \<Rightarrow> nat \<Rightarrow> sampleFormat \<Rightarrow> error + BlockFile" where
  "NewSimpleBlockFile fileOpens sampleData sampleLen format =
     (if fileOpens then Inr (Simple sampleLen format (Some (take sampleLen sampleData)))
      else Inl FileException)"

text \<open>\<^verbatim>\<open>Sequence::GetMaxBlockSize\<close>, \<^verbatim>\<open>GetIdealBlockSize\<close>, \<^verbatim>\<open>GetIdealAppendLen\<close>.\<close>

definition GetMaxBlockSize :: "Sequence \<Rightarrow> nat" where
  "GetMaxBlockSize s = mMaxSamples s"

definition GetIdealBlockSize :: "Sequence \<Rightarrow> nat" where
  "GetIdealBlockSize s = mMaxSamples s"

definition GetIdealAppendLen :: "Sequence \<Rightarrow> nat" where
  "GetIdealAppendLen s =
     (let max = GetMaxBlockSize s
      in if mBlock s = [] then max
         else let lastBlockLen = GetLength (sb_f (last (mBlock s)))
              in if lastBlockLen \<ge> max then max else max - lastBlockLen)"

text \<open>
  \<^verbatim>\<open>Overflows\<close> compares a \<^verbatim>\<open>double\<close> with the constant
  \<open>9223372036854775807\<close>, which the comparison converts to \<^verbatim>\<open>double\<close>.
  \<^verbatim>\<open>Sequence::ConsistencyCheck\<close> over the blocks from index \<open>from\<close> on: the result
  is \<^verbatim>\<open>bError\<close>.  The loop stops at the first error.
\<close>

definition Overflows :: "real \<Rightarrow> bool" where
  "Overflows numSamples = (numSamples > dbl 9223372036854775807)"

fun ConsistencyCheck_loop :: "SeqBlock list \<Rightarrow> nat \<Rightarrow> sampleCount \<Rightarrow> bool \<times> sampleCount" where
  "ConsistencyCheck_loop [] maxSamples pos = (False, pos)"
| "ConsistencyCheck_loop (seqBlock # rest) maxSamples pos =
     (if pos \<noteq> sb_start seqBlock then (True, wrap64 (pos + int (GetLength (sb_f seqBlock))))
      else if GetLength (sb_f seqBlock) > maxSamples
        then (True, wrap64 (pos + int (GetLength (sb_f seqBlock))))
      else ConsistencyCheck_loop rest maxSamples (wrap64 (pos + int (GetLength (sb_f seqBlock)))))"

definition ConsistencyCheck :: "SeqBlock list \<Rightarrow> nat \<Rightarrow> nat \<Rightarrow> sampleCount \<Rightarrow> bool" where
  "ConsistencyCheck blocks maxSamples from numSamples =
     (let pos = (if from < length blocks then sb_start (blocks ! from) else numSamples)
      in if from = 0 \<and> pos \<noteq> 0 then True
         else (case ConsistencyCheck_loop (drop from blocks) maxSamples pos of
                 (bError, pos') \<Rightarrow> bError \<or> pos' \<noteq> numSamples))"

text \<open>
  \<^verbatim>\<open>Sequence::AppendBlocksIfConsistent\<close>: a failed consistency check ends in
  \<^verbatim>\<open>assert(false)\<close>.
\<close>

definition AppendBlocksIfConsistent ::
  "Sequence \<Rightarrow> SeqBlock list \<Rightarrow> bool \<Rightarrow> sampleCount \<Rightarrow> error + Sequence" where
  "AppendBlocksIfConsistent s additionalBlocks replaceLast numSamples =
     (if additionalBlocks = [] then Inr s
      else
        (let kept = (if replaceLast \<and> mBlock s \<noteq> [] then butlast (mBlock s) else mBlock s);
             prevSize = length kept;
             blocks = kept @ additionalBlocks
         in if ConsistencyCheck blocks (mMaxSamples s) prevSize numSamples then Inl AssertionFailure
            else Inr (s\<lparr>mBlock := blocks, mNumSamples := numSamples\<rparr>)))"

text \<open>
  The loop \<^verbatim>\<open>while (len)\<close> of \<^verbatim>\<open>Sequence::Append\<close>, which appends the rest as new
  blocks; it does not end when \<open>mMaxSamples\<close> is 0, which is the value \<open>None\<close>.
  \<open>buffer2\<close> is the scratch buffer of the call.
\<close>

partial_function (option) Append_new_blocks ::
  "(sampleFormat \<Rightarrow> sampleFormat \<Rightarrow> sample \<Rightarrow> sample) \<Rightarrow> bool \<Rightarrow> Sequence \<Rightarrow> sample list \<Rightarrow>
   sampleFormat \<Rightarrow> nat \<Rightarrow> sample list \<Rightarrow> SeqBlock list \<Rightarrow> sampleCount \<Rightarrow>
   (error + SeqBlock list \<times> sampleCount) option" where
  "Append_new_blocks conv fileOpens s buffer format len buffer2 newBlock newNumSamples =
     (if len = 0 then Some (Inr (newBlock, newNumSamples))
      else
        (let idealSamples = GetIdealBlockSize s;
             addedLen = min idealSamples len;
             buffer2' = (if format = mSampleFormat s then buffer2
                         else CopySamples conv buffer format buffer2 0 (mSampleFormat s) addedLen)
         in case (if format = mSampleFormat s
                  then NewSimpleBlockFile fileOpens buffer addedLen (mSampleFormat s)
                  else NewSimpleBlockFile fileOpens buffer2' addedLen (mSampleFormat s)) of
              Inl e \<Rightarrow> Some (Inl e)
            | Inr pFile \<Rightarrow>
                Append_new_blocks conv fileOpens s (drop addedLen buffer) format (len - addedLen) buffer2'
                  (newBlock @ [\<lparr>sb_f = pFile, sb_start = newNumSamples\<rparr>])
                  (wrap64 (newNumSamples + int addedLen))))"

text \<open>
  \<^verbatim>\<open>Sequence::Append\<close>: a last block shorter than \<open>mMinSamples\<close> is read back
  (with \<open>mayThrow\<close> true), enlarged and replaced; the rest goes to new blocks.
\<close>

definition Sequence_Append ::
  "(sampleFormat \<Rightarrow> sampleFormat \<Rightarrow> sample \<Rightarrow> sample) \<Rightarrow> bool \<Rightarrow> Sequence \<Rightarrow> sample list \<Rightarrow>
   sampleFormat \<Rightarrow> nat \<Rightarrow> (error + Sequence) option" where
  "Sequence_Append conv fileOpens s buffer format len =
     (if len = 0 then Some (Inr s)
      else if Overflows (dbl (as_double (mNumSamples s) + dbl (real len)))
        then Some (Inl InconsistencyException)
      else
        (let buffer2 = replicate (mMaxSamples s) 0
         in if mBlock s \<noteq> [] \<and> GetLength (sb_f (last (mBlock s))) < mMinSamples s then
              (let lastBlock = last (mBlock s);
                   length = GetLength (sb_f lastBlock);
                   addLen = min (mMaxSamples s - length) len
               in case Sequence_Read conv buffer2 0 (mSampleFormat s) lastBlock 0 length True of
                    Inl e \<Rightarrow> Some (Inl e)
                  | Inr (buffer2a, ok) \<Rightarrow>
                      (let buffer2b = CopySamples conv buffer format buffer2a length (mSampleFormat s) addLen;
                           newLastBlockLen = length + addLen
                       in case NewSimpleBlockFile fileOpens buffer2b newLastBlockLen (mSampleFormat s) of
                            Inl e \<Rightarrow> Some (Inl e)
                          | Inr pFile \<Rightarrow>
                              (case Append_new_blocks conv fileOpens s (drop addLen buffer) format
                                      (len - addLen) buffer2b
                                      [\<lparr>sb_f = pFile, sb_start = sb_start lastBlock\<rparr>]
                                      (wrap64 (mNumSamples s + int addLen)) of
                                 None \<Rightarrow> None
                               | Some (Inl e) \<Rightarrow> Some (Inl e)
                               | Some (Inr (newBlock, newNumSamples)) \<Rightarrow>
                                   Some (AppendBlocksIfConsistent s newBlock True newNumSamples))))
            else
              (case Append_new_blocks conv fileOpens s buffer format len buffer2 [] (mNumSamples s) of
                 None \<Rightarrow> None
               | Some (Inl e) \<Rightarrow> Some (Inl e)
               | Some (Inr (newBlock, newNumSamples)) \<Rightarrow>
                   Some (AppendBlocksIfConsistent s newBlock False newNumSamples))))"

subsection \<open>Appending to a clip and a track\<close>

text \<open>
  \<^verbatim>\<open>WaveClip::UpdateEnvelopeTrackLen\<close>; \<open>SetTrackLen\<close> stands for
  \<^verbatim>\<open>Envelope::SetTrackLen\<close>, whose editing of the control points is not modelled.
\<close>

definition UpdateEnvelopeTrackLen :: "(Envelope \<Rightarrow> real \<Rightarrow> real \<Rightarrow> Envelope) \<Rightarrow> WaveClip \<Rightarrow> WaveClip" where
  "UpdateEnvelopeTrackLen SetTrackLen c =
     c\<lparr>mEnvelope := SetTrackLen (mEnvelope c)
            (dbl (as_double (mNumSamples (mSequence c)) / real_of_int (WaveClip.mRate c)))
            (dbl (1 / real_of_int (WaveClip.mRate c)))\<rparr>"

text \<open>
  The loop \<^verbatim>\<open>for (;;)\<close> of \<^verbatim>\<open>WaveClip::Append\<close>.  Its first part,
  \<open>Append_flush\<close>, flushes \<open>blockSize\<close> samples of the append buffer to the
  sequence once the buffer holds as many, moves the rest to the front and takes the new
  ideal length; the second part copies what fits of the caller's buffer into the append
  buffer.  \<open>None\<close> is a loop that does not end.
\<close>

definition Append_flush ::
  "(sampleFormat \<Rightarrow> sampleFormat \<Rightarrow> sample \<Rightarrow> sample) \<Rightarrow> bool \<Rightarrow> sampleFormat \<Rightarrow> WaveClip \<Rightarrow> nat \<Rightarrow>
   (error + WaveClip \<times> nat) option" where
  "Append_flush conv fileOpens seqFormat c blockSize =
     (if mAppendBufferLen c \<ge> blockSize then
        (case Sequence_Append conv fileOpens (mSequence c) (mAppendBuffer c) seqFormat blockSize of
           None \<Rightarrow> None
         | Some (Inl e) \<Rightarrow> Some (Inl e)
         | Some (Inr s') \<Rightarrow>
             Some (Inr (c\<lparr>mSequence := s',
                           mAppendBuffer := poke (mAppendBuffer c) 0
                              (take (mAppendBufferLen c - blockSize) (drop blockSize (mAppendBuffer c))),
                           mAppendBufferLen := mAppendBufferLen c - blockSize\<rparr>,
                        GetIdealAppendLen s')))
      else Some (Inr (c, blockSize)))"

partial_function (option) Append_loop ::
  "(sampleFormat \<Rightarrow> sampleFormat \<Rightarrow> sample \<Rightarrow> sample) \<Rightarrow> bool \<Rightarrow> nat \<Rightarrow> sampleFormat \<Rightarrow> WaveClip \<Rightarrow>
   sample list \<Rightarrow> sampleFormat \<Rightarrow> nat \<Rightarrow> nat \<Rightarrow> (error + WaveClip) option" where
  "Append_loop conv fileOpens maxBlockSize seqFormat c buffer format len blockSize =
     (case Append_flush conv fileOpens seqFormat c blockSize of
        None \<Rightarrow> None
      | Some (Inl e) \<Rightarrow> Some (Inl e)
      | Some (Inr (c1, blockSize1)) \<Rightarrow>
          if len = 0 then Some (Inr c1)
          else if \<not> mAppendBufferLen c1 \<le> maxBlockSize then Some (Inl AssertionFailure)
          else
            (let toCopy = min len (maxBlockSize - mAppendBufferLen c1)
             in Append_loop conv fileOpens maxBlockSize seqFormat
                  (c1\<lparr>mAppendBuffer := CopySamples conv buffer format (mAppendBuffer c1)
                                           (mAppendBufferLen c1) seqFormat toCopy,
                       mAppendBufferLen := mAppendBufferLen c1 + toCopy\<rparr>)
                  (drop toCopy buffer) format (len - toCopy) blockSize1))"

text \<open>
  \<^verbatim>\<open>WaveClip::Append\<close> and \<^verbatim>\<open>WaveClip::Flush\<close>.  A freshly allocated append
  buffer holds \<open>maxBlockSize\<close> samples, here zeros.
\<close>

definition WaveClip_Append ::
  "(sampleFormat \<Rightarrow> sampleFormat \<Rightarrow> sample \<Rightarrow> sample) \<Rightarrow> bool \<Rightarrow> (Envelope \<Rightarrow> real \<Rightarrow> real \<Rightarrow> Envelope) \<Rightarrow>
   WaveClip \<Rightarrow> sample list \<Rightarrow> sampleFormat \<Rightarrow> nat \<Rightarrow> (error + WaveClip) option" where
  "WaveClip_Append conv fileOpens SetTrackLen c buffer format len =
     (let maxBlockSize = GetMaxBlockSize (mSequence c);
          blockSize = GetIdealAppendLen (mSequence c);
          seqFormat = mSampleFormat (mSequence c);
          c0 = (if mAppendBuffer c = [] then c\<lparr>mAppendBuffer := replicate maxBlockSize 0\<rparr> else c)
      in case Append_loop conv fileOpens maxBlockSize seqFormat c0 buffer format len blockSize of
           None \<Rightarrow> None
         | Some (Inl e) \<Rightarrow> Some (Inl e)
         | Some (Inr c') \<Rightarrow> Some (Inr (UpdateEnvelopeTrackLen SetTrackLen c')))"

definition WaveClip_Flush ::
  "(sampleFormat \<Rightarrow> sampleFormat \<Rightarrow> sample \<Rightarrow> sample) \<Rightarrow> bool \<Rightarrow> (Envelope \<Rightarrow> real \<Rightarrow> real \<Rightarrow> Envelope) \<Rightarrow>
   WaveClip \<Rightarrow> (error + WaveClip) option" where
  "WaveClip_Flush conv fileOpens SetTrackLen c =
     (if mAppendBufferLen c > 0 then
        (case Sequence_Append conv fileOpens (mSequence c) (mAppendBuffer c) (mSampleFormat (mSequence c))
                (mAppendBufferLen c) of
           None \<Rightarrow> None
         | Some (Inl e) \<Rightarrow> Some (Inl e)
         | Some (Inr s') \<Rightarrow>
             Some (Inr (UpdateEnvelopeTrackLen SetTrackLen (c\<lparr>mSequence := s', mAppendBufferLen := 0\<rparr>))))
      else Some (Inr c))"


text \<open>
  The constructors of \<^verbatim>\<open>Sequence\<close> (with \<open>sMaxDiskBlockSize = 1048576\<close>),
  \<^verbatim>\<open>WaveClip\<close> and \<^verbatim>\<open>WaveTrack\<close>; the latter converts its rate, a
  \<^verbatim>\<open>double\<close>, to an \<^verbatim>\<open>int\<close>.
\<close>

definition new_Sequence :: "sampleFormat \<Rightarrow> Sequence" where
  "new_Sequence format =
     \<lparr>mBlock = [], mNumSamples = 0, mSampleFormat = format,
      mMinSamples = 1048576 div SAMPLE_SIZE format div 2,
      mMaxSamples = (1048576 div SAMPLE_SIZE format div 2) * 2\<rparr>"

definition new_WaveClip :: "sampleFormat \<Rightarrow> int \<Rightarrow> WaveClip" where
  "new_WaveClip format rate =
     \<lparr>WaveClip.mOffset = 0, WaveClip.mRate = rate, mSequence = new_Sequence format,
      mEnvelope = \<lparr>mEnv = [], mDefaultValue = 1\<rparr>, mAppendBuffer = [], mAppendBufferLen = 0\<rparr>"

definition new_WaveTrack :: "sampleFormat \<Rightarrow> real \<Rightarrow> WaveTrack" where
  "new_WaveTrack format rate =
     \<lparr>mClips = [], mFormat = format, mRate = (if rate < 0 then \<lceil>rate\<rceil> else \<lfloor>rate\<rfloor>),
      mGain = 1, mPan = 0, mOffset = 0\<rparr>"

text \<open>
  \<^verbatim>\<open>WaveTrack::RightmostOrNewClip\<close>: the track, with a new clip if it had none, and the
  index of the first clip of greatest offset.
\<close>

fun Rightmost_loop :: "WaveClip list \<Rightarrow> nat \<Rightarrow> nat \<Rightarrow> real \<Rightarrow> nat" where
  "Rightmost_loop [] i rightmost maxOffset = rightmost"
| "Rightmost_loop (clip # rest) i rightmost maxOffset =
     (if maxOffset < WaveClip.mOffset clip
      then Rightmost_loop rest (i + 1) i (WaveClip.mOffset clip)
      else Rightmost_loop rest (i + 1) rightmost maxOffset)"

definition RightmostOrNewClip :: "WaveTrack \<Rightarrow> WaveTrack \<times> nat" where
  "RightmostOrNewClip t =
     (if mClips t = [] then
        (t\<lparr>mClips := [(new_WaveClip (mFormat t) (WaveTrack.mRate t))
                          \<lparr>WaveClip.mOffset := WaveTrack.mOffset t\<rparr>]\<rparr>, 0)
      else (t, Rightmost_loop (tl (mClips t)) 1 0 (WaveClip.mOffset (hd (mClips t)))))"

text \<open>\<^verbatim>\<open>WaveTrack::Append\<close> and \<^verbatim>\<open>WaveTrack::Flush\<close>.\<close>

definition WaveTrack_Append ::
  "(sampleFormat \<Rightarrow> sampleFormat \<Rightarrow> sample \<Rightarrow> sample) \<Rightarrow> bool \<Rightarrow> (Envelope \<Rightarrow> real \<Rightarrow> real \<Rightarrow> Envelope) \<Rightarrow>
   WaveTrack \<Rightarrow> sample list \<Rightarrow> sampleFormat \<Rightarrow> nat \<Rightarrow> (error + WaveTrack) option" where
  "WaveTrack_Append conv fileOpens SetTrackLen t buffer format len =
     (case RightmostOrNewClip t of
        (t0, i) \<Rightarrow>
          (case WaveClip_Append conv fileOpens SetTrackLen (mClips t0 ! i) buffer format len of
             None \<Rightarrow> None
           | Some (Inl e) \<Rightarrow> Some (Inl e)
           | Some (Inr c) \<Rightarrow> Some (Inr (t0\<lparr>mClips := (mClips t0)[i := c]\<rparr>))))"

definition WaveTrack_Flush ::
  "(sampleFormat \<Rightarrow> sampleFormat \<Rightarrow> sample \<Rightarrow> sample) \<Rightarrow> bool \<Rightarrow> (Envelope \<Rightarrow> real \<Rightarrow> real \<Rightarrow> Envelope) \<Rightarrow>
   WaveTrack \<Rightarrow> (error + WaveTrack) option" where
  "WaveTrack_Flush conv fileOpens SetTrackLen t =
     (case RightmostOrNewClip t of
        (t0, i) \<Rightarrow>
          (case WaveClip_Flush conv fileOpens SetTrackLen (mClips t0 ! i) of
             None \<Rightarrow> None
           | Some (Inl e) \<Rightarrow> Some (Inl e)
           | Some (Inr c) \<Rightarrow> Some (Inr (t0\<lparr>mClips := (mClips t0)[i := c]\<rparr>))))"

text \<open>
  The state a clip is found in between two operations: its sequence is consistent, its
  block files hold all their samples in the format of the sequence, the block sizes are
  those a constructor sets (\<open>0 < mMaxSamples\<close>, \<open>mMinSamples \<le> mMaxSamples\<close>), and
  the append buffer is unallocated and empty, or allocated with \<open>mMaxSamples\<close> samples
  of which the first \<open>mAppendBufferLen\<close> are pending.
\<close>

fun blockInFormat :: "sampleFormat \<Rightarrow> BlockFile \<Rightarrow> bool" where
  "blockInFormat format (Silent n mn mx rms) = True"
| "blockInFormat format (Simple n fileFormat fl) = (fileFormat = format)"

definition seq_ok :: "Sequence \<Rightarrow> bool" where
  "seq_ok s =
     (consistent s \<and> seqComplete s
      \<and> list_all (\<lambda>b. blockInFormat (mSampleFormat s) (sb_f b)) (mBlock s)
      \<and> 0 < mMaxSamples s \<and> mMinSamples s \<le> mMaxSamples s)"

definition clip_ok :: "WaveClip \<Rightarrow> bool" where
  "clip_ok c =
     (seq_ok (mSequence c)
      \<and> ((mAppendBuffer c = [] \<and> mAppendBufferLen c = 0)
           \<or> (length (mAppendBuffer c) = mMaxSamples (mSequence c)
               \<and> mAppendBufferLen c \<le> mMaxSamples (mSequence c))))"

definition pending :: "WaveClip \<Rightarrow> sample list" where
  "pending c = take (mAppendBufferLen c) (mAppendBuffer c)"


section \<open>Noise statistics\<close>

text \<open>
  Modelled from the spec: the sealed statistics of the profile (NoiseReduction.cpp is not
  among the sources): per bin the mean and the standard deviation of
  \<open>log(|X\<^sub>k|\<^sup>2 + \<epsilon>)\<close>, the threshold
  \<open>meanLog[k] + (sensitivityDb/10) \<cdot> stdevLog[k]\<close>, the instantaneous classification
  \<open>isNoise[k] = (log(|X\<^sub>k|\<^sup>2 + \<epsilon>) < threshold[k, sensitivity])\<close> with
  \<open>\<epsilon> = 10\<^sup>-\<^sup>6\<close>, and the number of bins of a frame classified as noise.
  A frame is given by its squared magnitudes.
\<close>

record Statistics =
  meanLog :: "real list"
  stdevLog :: "real list"

definition threshold :: "Statistics \<Rightarrow> nat \<Rightarrow> real \<Rightarrow> real" where
  "threshold st k sensitivityDb = meanLog st ! k + (sensitivityDb / 10) * stdevLog st ! k"

definition isNoise :: "Statistics \<Rightarrow> real \<Rightarrow> real list \<Rightarrow> nat \<Rightarrow> bool" where
  "isNoise st sensitivityDb magnitudeSquared k =
     (ln (magnitudeSquared ! k + 1 / 10 ^ 6) < threshold st k sensitivityDb)"

definition noiseCount :: "Statistics \<Rightarrow> real \<Rightarrow> real list \<Rightarrow> nat" where
  "noiseCount st sensitivityDb magnitudeSquared =
     length (filter (isNoise st sensitivityDb magnitudeSquared) [0..<length magnitudeSquared])"

section \<open>Example data\<close>


definition unit_rate_clip :: "real \<Rightarrow> nat \<Rightarrow> WaveClip" where
  "unit_rate_clip off n =
     \<lparr>WaveClip.mOffset = off, WaveClip.mRate = 1,
      mSequence = \<lparr>mBlock = [\<lparr>sb_f = SilentBlockFile n, sb_start = 0\<rparr>], mNumSamples = int n,
                   mSampleFormat = floatSample, mMinSamples = 131072, mMaxSamples = 262144\<rparr>,
      mEnvelope = \<lparr>mEnv = [], mDefaultValue = 1\<rparr>,
      mAppendBuffer = [], mAppendBufferLen = 0\<rparr>"

text \<open>Sealed statistics of a one-bin profile: mean 0, standard deviation 1.\<close>

definition one_bin_statistics :: Statistics where
  "one_bin_statistics = \<lparr>meanLog = [0], stdevLog = [1]\<rparr>"

text \<open>
  Tracks of rate 4 in the float format, read without conversion: a track of two clips
  with a gap between them, the block file of the second one sample short; a track whose
  only block file is one sample short; a track that holds the sample 3/2.
\<close>

definition no_conversion :: "sampleFormat \<Rightarrow> sampleFormat \<Rightarrow> sample \<Rightarrow> sample" where
  "no_conversion src dst x = x"

definition example_clip :: "real \<Rightarrow> SeqBlock list \<Rightarrow> int \<Rightarrow> WaveClip" where
  "example_clip off bs n = \<lparr>WaveClip.mOffset = off, WaveClip.mRate = 4,
      mSequence = \<lparr>mBlock = bs, mNumSamples = n,
                   mSampleFormat = floatSample, mMinSamples = 131072, mMaxSamples = 262144\<rparr>,
      mEnvelope = \<lparr>mEnv = [], mDefaultValue = 1\<rparr>,
      mAppendBuffer = [], mAppendBufferLen = 0\<rparr>"

definition gap_track :: WaveTrack where
  "gap_track = \<lparr>mClips =
      [example_clip 0 [\<lparr>sb_f = Simple 2 floatSample (Some [1/2, -1/4]), sb_start = 0\<rparr>] 2,
       example_clip 1 [\<lparr>sb_f = Simple 2 floatSample (Some [3/4]), sb_start = 0\<rparr>] 2],
     mFormat = floatSample, mRate = 4, mGain = 1, mPan = 0, mOffset = 0\<rparr>"

definition short_track :: WaveTrack where
  "short_track = \<lparr>mClips =
      [example_clip 0 [\<lparr>sb_f = Simple 2 floatSample (Some [1/2]), sb_start = 0\<rparr>] 2],
     mFormat = floatSample, mRate = 4, mGain = 1, mPan = 0, mOffset = 0\<rparr>"

definition loud_track :: WaveTrack where
  "loud_track = \<lparr>mClips =
      [example_clip 0 [\<lparr>sb_f = Simple 1 floatSample (Some [3/2]), sb_start = 0\<rparr>] 1],
     mFormat = floatSample, mRate = 4, mGain = 1, mPan = 0, mOffset = 0\<rparr>"


text \<open>
  An envelope update that leaves the envelope as it is; a float clip of rate 44100 at
  offset 0 with the block sizes of the constructor, given by its append buffer, the
  number of pending samples, its blocks and its sample count; a track of one clip.
\<close>

definition keep_envelope :: "Envelope \<Rightarrow> real \<Rightarrow> real \<Rightarrow> Envelope" where
  "keep_envelope e trackLen sampleDur = e"

definition float_clip :: "sample list \<Rightarrow> nat \<Rightarrow> SeqBlock list \<Rightarrow> int \<Rightarrow> WaveClip" where
  "float_clip abuf abl bs n =
     \<lparr>WaveClip.mOffset = 0, WaveClip.mRate = 44100,
      mSequence = \<lparr>mBlock = bs, mNumSamples = n, mSampleFormat = floatSample,
                   mMinSamples = 131072, mMaxSamples = 262144\<rparr>,
      mEnvelope = \<lparr>mEnv = [], mDefaultValue = 1\<rparr>, mAppendBuffer = abuf, mAppendBufferLen = abl\<rparr>"

definition single_clip_track :: "WaveClip \<Rightarrow> WaveTrack" where
  "single_clip_track c = \<lparr>mClips = [c], mFormat = floatSample, mRate = 44100, mGain = 1, mPan = 0, mOffset = 0\<rparr>"

text \<open>
  A track of three float clips at the offsets 0, 2 and 1: the rightmost clip is the second
  one; it holds a flushed block of two samples, and one sample is pending in its append
  buffer.
\<close>

definition three_clip_track :: WaveTrack where
  "three_clip_track = \<lparr>mClips =
      [float_clip [] 0 [\<lparr>sb_f = Simple 2 floatSample (Some [1/16, 1/32]), sb_start = 0\<rparr>] 2,
       (float_clip (1/8 # replicate 262143 0) 1
          [\<lparr>sb_f = Simple 2 floatSample (Some [1/2, -1/4]), sb_start = 0\<rparr>] 2)
         \<lparr>WaveClip.mOffset := 2\<rparr>,
       (float_clip [] 0 [\<lparr>sb_f = Simple 1 floatSample (Some [1/64]), sb_start = 0\<rparr>] 1)
         \<lparr>WaveClip.mOffset := 1\<rparr>],
     mFormat = floatSample, mRate = 44100, mGain = 1, mPan = 0, mOffset = 0\<rparr>"


section \<open>Properties\<close>

declare FindBlock_loop.simps [simp del] Sequence_Get_from.simps [simp del]

declare MixBuffers_samples.simps [simp del] MixBuffers_channels.simps [simp del]

declare Append_new_blocks.simps [code] Append_loop.simps [code]


lemma replicate_num: "replicate (numeral k) x = x # replicate (pred_numeral k) x"
  by (simp add: numeral_eq_Suc)

subsection \<open>Sample counts and rounding\<close>

declare ilog2.simps [simp del]

lemma wrap64_id: "- 9223372036854775808 \<le> x \<Longrightarrow> x < 9223372036854775808 \<Longrightarrow> wrap64 x = x"
  by (simp add: wrap64_def)

lemma wrap64_range: "- 9223372036854775808 \<le> wrap64 x \<and> wrap64 x < 9223372036854775808"
  unfolding wrap64_def by simp

lemma ilog2_bounds: "0 < n \<Longrightarrow> 2 ^ ilog2 n \<le> n \<and> n < 2 ^ Suc (ilog2 n)"
proof (induction n rule: ilog2.induct)
  case (1 n)
  show ?case
  proof (cases "n < 2")
    case True
    with 1 have "n = 1" by simp
    then show ?thesis by (simp add: ilog2.simps)
  next
    case False
    then have "0 < n div 2" by simp
    with 1 False have ih: "2 ^ ilog2 (n div 2) \<le> n div 2" "n div 2 < 2 ^ Suc (ilog2 (n div 2))"
      by simp_all
    have e: "ilog2 n = Suc (ilog2 (n div 2))"
      using False by (subst ilog2.simps) simp
    show ?thesis
      unfolding e using ih by simp linarith
  qed
qed

lemma ilog2_less: "n < 2 ^ j \<Longrightarrow> 0 < j \<Longrightarrow> ilog2 n < j"
proof (cases "0 < n")
  case True
  assume a: "n < 2 ^ j"
  have "(2::int) ^ ilog2 n \<le> n"
    using ilog2_bounds [OF True] by simp
  with a have "(2::int) ^ ilog2 n < 2 ^ j"
    by linarith
  then show ?thesis
    by simp
next
  case False
  assume "0 < j"
  moreover have "ilog2 n = 0"
    using False by (subst ilog2.simps) simp
  ultimately show ?thesis
    by simp
qed

lemma round_even_int: "round_even (real_of_int z) = z"
  by (simp add: round_even_def)

lemma round_even_between:
  assumes "real_of_int a \<le> y" and "y \<le> real_of_int b"
  shows "a \<le> round_even y \<and> round_even y \<le> b"
proof -
  have f: "a \<le> \<lfloor>y\<rfloor>"
    using assms(1) by linarith
  have g: "\<lfloor>y\<rfloor> \<le> b"
    using assms(2) by linarith
  show ?thesis
  proof (cases "\<lfloor>y\<rfloor> = b")
    case True
    then have "y - real_of_int \<lfloor>y\<rfloor> \<le> 0"
      using assms(2) by simp
    then have "round_even y = \<lfloor>y\<rfloor>"
      by (simp add: round_even_def Let_def)
    then show ?thesis
      using f g by simp
  next
    case False
    then have "\<lfloor>y\<rfloor> + 1 \<le> b"
      using g by linarith
    moreover have "round_even y = \<lfloor>y\<rfloor> \<or> round_even y = \<lfloor>y\<rfloor> + 1"
      by (simp add: round_even_def Let_def)
    ultimately show ?thesis
      using f by linarith
  qed
qed

lemma quantum_pos: "0 < quantum p m x"
  by (simp add: quantum_def)

lemma fl_round_fix:
  assumes "x = real_of_int z * quantum p m x"
  shows "fl_round p m x = x"
proof -
  have "x / quantum p m x = real_of_int z"
    using assms quantum_pos [of p m x] by (simp add: field_simps)
  then show ?thesis
    unfolding fl_round_def using assms by (simp add: round_even_int)
qed

lemma fl_round_between:
  assumes "real_of_int a * quantum p m x \<le> x" and "x \<le> real_of_int b * quantum p m x"
  shows "real_of_int a * quantum p m x \<le> fl_round p m x
         \<and> fl_round p m x \<le> real_of_int b * quantum p m x"
proof -
  note q = quantum_pos [of p m x]
  have "real_of_int a \<le> x / quantum p m x" "x / quantum p m x \<le> real_of_int b"
    using assms q by (simp_all add: field_simps)
  then have "a \<le> round_even (x / quantum p m x) \<and> round_even (x / quantum p m x) \<le> b"
    by (rule round_even_between)
  then have "real_of_int a \<le> real_of_int (round_even (x / quantum p m x))"
    "real_of_int (round_even (x / quantum p m x)) \<le> real_of_int b"
    by simp_all
  then show ?thesis
    unfolding fl_round_def using q by (simp add: mult_right_mono)
qed

text \<open>Below \<open>2^j\<close> the quantum divides \<open>2^(j + m - p) / 2^m\<close>.\<close>

lemma quantum_divides:
  assumes "\<bar>x\<bar> < 2 ^ j" and "p \<le> j + m" and "0 < p"
  shows "\<exists>t. quantum p m x * 2 ^ t = 2 ^ (j + m - p) / 2 ^ m"
proof -
  have "\<bar>x\<bar> * 2 ^ m < 2 ^ j * 2 ^ m"
    using assms(1) by simp
  then have "\<bar>x\<bar> * 2 ^ m < real_of_int (2 ^ (j + m))"
    by (simp add: power_add)
  then have "\<lfloor>\<bar>x\<bar> * 2 ^ m\<rfloor> < 2 ^ (j + m)"
    by (simp only: floor_less_iff)
  moreover have "0 < j + m"
    using assms(2,3) by linarith
  ultimately have "ilog2 \<lfloor>\<bar>x\<bar> * 2 ^ m\<rfloor> < j + m"
    by (rule ilog2_less)
  then have le: "ilog2 \<lfloor>\<bar>x\<bar> * 2 ^ m\<rfloor> - (p - 1) \<le> j + m - p"
    using assms(3) by linarith
  define s where "s = ilog2 \<lfloor>\<bar>x\<bar> * 2 ^ m\<rfloor> - (p - 1)"
  have "s + (j + m - p - s) = j + m - p"
    using le unfolding s_def by linarith
  then have "(2::real) ^ s * 2 ^ (j + m - p - s) = 2 ^ (j + m - p)"
    by (simp only: power_add [symmetric])
  then have "quantum p m x * 2 ^ (j + m - p - s) = 2 ^ (j + m - p) / 2 ^ m"
    unfolding quantum_def s_def [symmetric] by (simp add: field_simps)
  then show ?thesis
    by blast
qed

lemma fl_round_exact:
  assumes "\<bar>x\<bar> < 2 ^ j" and "p \<le> j + m" and "0 < p"
    and "x = real_of_int z * (2 ^ (j + m - p) / 2 ^ m)"
  shows "fl_round p m x = x"
proof -
  obtain t where t: "quantum p m x * 2 ^ t = 2 ^ (j + m - p) / 2 ^ m"
    using quantum_divides [OF assms(1-3)] by blast
  have "real_of_int (z * 2 ^ t) * quantum p m x = real_of_int z * (quantum p m x * 2 ^ t)"
    by simp
  also have "\<dots> = real_of_int z * (2 ^ (j + m - p) / 2 ^ m)"
    by (simp only: t)
  also have "\<dots> = x"
    by (rule assms(4) [symmetric])
  finally have "x = real_of_int (z * 2 ^ t) * quantum p m x"
    by (rule sym)
  then show ?thesis
    by (rule fl_round_fix)
qed

lemma fl_round_grid:
  assumes "\<bar>x\<bar> < 2 ^ j" and "p \<le> j + m" and "0 < p"
    and "real_of_int a * (2 ^ (j + m - p) / 2 ^ m) \<le> x"
    and "x \<le> real_of_int b * (2 ^ (j + m - p) / 2 ^ m)"
  shows "real_of_int a * (2 ^ (j + m - p) / 2 ^ m) \<le> fl_round p m x
         \<and> fl_round p m x \<le> real_of_int b * (2 ^ (j + m - p) / 2 ^ m)"
proof -
  obtain t where t: "quantum p m x * 2 ^ t = 2 ^ (j + m - p) / 2 ^ m"
    using quantum_divides [OF assms(1-3)] by blast
  have e: "real_of_int c * (2 ^ (j + m - p) / 2 ^ m) = real_of_int (c * 2 ^ t) * quantum p m x" for c
  proof -
    have "real_of_int (c * 2 ^ t) * quantum p m x = real_of_int c * (quantum p m x * 2 ^ t)"
      by simp
    then show ?thesis
      by (simp only: t)
  qed
  show ?thesis
    using fl_round_between [of "a * 2 ^ t" p m x "b * 2 ^ t"] assms(4,5) unfolding e by blast
qed

lemma ilog2_eq: "2 ^ k \<le> n \<Longrightarrow> n < 2 ^ Suc k \<Longrightarrow> ilog2 n = k"
proof -
  assume a: "2 ^ k \<le> n" "n < 2 ^ Suc k"
  then have p: "0 < n"
    by (smt (verit) zero_less_power)
  note b = ilog2_bounds [OF p]
  have "(2::int) ^ ilog2 n < 2 ^ Suc k"
    using b a by linarith
  then have "ilog2 n < Suc k"
    by (rule power_less_imp_less_exp [rotated]) simp
  moreover have "(2::int) ^ k < 2 ^ Suc (ilog2 n)"
    using b a by linarith
  then have "k < Suc (ilog2 n)"
    by (rule power_less_imp_less_exp [rotated]) simp
  ultimately show ?thesis
    by linarith
qed

lemma fl_round_eval:
  assumes "2 ^ k \<le> \<lfloor>\<bar>x\<bar> * 2 ^ m\<rfloor>" and "\<lfloor>\<bar>x\<bar> * 2 ^ m\<rfloor> < 2 ^ Suc k"
  shows "fl_round p m x
         = real_of_int (round_even (x / (2 ^ (k - (p - 1)) / 2 ^ m))) * (2 ^ (k - (p - 1)) / 2 ^ m)"
  unfolding fl_round_def quantum_def ilog2_eq [OF assms] ..

lemma dbl_int: "\<bar>n\<bar> < 9007199254740992 \<Longrightarrow> dbl (real_of_int n) = real_of_int n"
  unfolding dbl_def
  using fl_round_exact [of "real_of_int n" 53 53 1074 n] by simp

lemma pow2_half: "(2::real) ^ (52 + 1074 - 53) / 2 ^ 1074 = 1 / 2"
  by simp

lemma dbl_half_int: "\<bar>n\<bar> < 9007199254740992 \<Longrightarrow> dbl (real_of_int n / 2) = real_of_int n / 2"
proof -
  assume a: "\<bar>n\<bar> < 9007199254740992"
  then have "\<bar>real_of_int n\<bar> < 9007199254740992"
    by linarith
  then have b: "\<bar>real_of_int n / 2\<bar> < 2 ^ 52"
    by simp
  have c: "real_of_int n / 2 = real_of_int n * (2 ^ (52 + 1074 - 53) / 2 ^ 1074)"
    unfolding pow2_half by simp
  show ?thesis
    unfolding dbl_def using b _ _ c by (rule fl_round_exact) simp_all
qed

lemma dbl_0 [simp]: "dbl 0 = 0"
  using dbl_int [of 0] by simp

lemma dbl_numeral: "numeral w < (9007199254740992::int) \<Longrightarrow> dbl (numeral w) = numeral w"
  using dbl_int [of "numeral w"] by simp

lemma dbl_numeral_half: "numeral w < (9007199254740992::int) \<Longrightarrow> dbl (numeral w / 2) = numeral w / 2"
  using dbl_half_int [of "numeral w"] by simp

lemma dbl_1 [simp]: "dbl 1 = 1"
  using dbl_int [of 1] by simp

lemma dbl_half [simp]: "dbl (1 / 2) = 1 / 2"
  using dbl_half_int [of 1] by simp

lemma fl_round_binade:
  assumes lo: "2 ^ a / 2 ^ b \<le> \<bar>x\<bar>" and hi: "\<bar>x\<bar> < 2 * 2 ^ a / 2 ^ b"
    and nrm: "b + (p - 1) \<le> a + m"
  shows "fl_round p m x
         = real_of_int (round_even (x * 2 ^ (b + (p - 1)) / 2 ^ a)) * 2 ^ a / 2 ^ (b + (p - 1))"
proof -
  define k where "k = a + m - b"
  have kb: "k + b = a + m"
    using nrm unfolding k_def by linarith
  have pk: "(2::real) ^ k * 2 ^ b = 2 ^ a * 2 ^ m"
    by (simp only: power_add [symmetric] kb)
  have "(2::real) ^ k = 2 ^ a / 2 ^ b * 2 ^ m"
    using pk by (simp add: field_simps)
  also have "\<dots> \<le> \<bar>x\<bar> * 2 ^ m"
    using lo by (intro mult_right_mono) simp_all
  finally have "real_of_int (2 ^ k) \<le> \<bar>x\<bar> * 2 ^ m"
    by simp
  then have l: "2 ^ k \<le> \<lfloor>\<bar>x\<bar> * 2 ^ m\<rfloor>"
    by (simp only: le_floor_iff)
  have "\<bar>x\<bar> * 2 ^ m < 2 * 2 ^ a / 2 ^ b * 2 ^ m"
    using hi by (intro mult_strict_right_mono) simp_all
  also have "\<dots> = 2 * 2 ^ k"
    using pk by (simp add: field_simps)
  finally have "\<bar>x\<bar> * 2 ^ m < real_of_int (2 ^ Suc k)"
    by simp
  then have h: "\<lfloor>\<bar>x\<bar> * 2 ^ m\<rfloor> < 2 ^ Suc k"
    by (simp only: floor_less_iff)
  have il: "ilog2 \<lfloor>\<bar>x\<bar> * 2 ^ m\<rfloor> = k"
    using l h by (rule ilog2_eq)
  have "k - (p - 1) + (b + (p - 1)) = a + m"
    using nrm unfolding k_def by linarith
  then have "(2::real) ^ (k - (p - 1)) * 2 ^ (b + (p - 1)) = 2 ^ a * 2 ^ m"
    by (simp only: power_add [symmetric])
  then have q: "quantum p m x = 2 ^ a / 2 ^ (b + (p - 1))"
    unfolding quantum_def il by (simp add: field_simps)
  show ?thesis
    unfolding fl_round_def q by simp
qed

lemma dbl_binade:
  "2 ^ a / 2 ^ b \<le> \<bar>x\<bar> \<Longrightarrow> \<bar>x\<bar> < 2 * 2 ^ a / 2 ^ b \<Longrightarrow> b \<le> a + 1022 \<Longrightarrow>
   dbl x = real_of_int (round_even (x * 2 ^ (b + 52) / 2 ^ a)) * 2 ^ a / 2 ^ (b + 52)"
  unfolding dbl_def using fl_round_binade [of a b x 53 1074] by simp





lemma round_even_error: "\<bar>real_of_int (round_even y) - y\<bar> \<le> 1 / 2"
  unfolding round_even_def Let_def by (simp add: abs_le_iff)

lemma fl_round_error: "\<bar>fl_round p m x - x\<bar> \<le> quantum p m x / 2"
proof -
  note q = quantum_pos [of p m x]
  have "fl_round p m x - x
        = (real_of_int (round_even (x / quantum p m x)) - x / quantum p m x) * quantum p m x"
    unfolding fl_round_def using q by (simp add: field_simps)
  then have "\<bar>fl_round p m x - x\<bar>
        = \<bar>real_of_int (round_even (x / quantum p m x)) - x / quantum p m x\<bar> * quantum p m x"
    using q by (simp add: abs_mult)
  also have "\<dots> \<le> 1 / 2 * quantum p m x"
    using q round_even_error [of "x / quantum p m x"] by (intro mult_right_mono) simp_all
  finally show ?thesis
    by simp
qed

lemma pow2_1024: "(2::real) ^ (63 + 1074 - 53) / 2 ^ 1074 = 1024"
  by simp

lemma pow2_2048: "(2::real) ^ (64 + 1074 - 53) / 2 ^ 1074 = 2048"
  by simp

lemma dbl_error_63:
  assumes "\<bar>x\<bar> < 2 ^ 63"
  shows "\<bar>dbl x - x\<bar> \<le> 512"
proof -
  obtain t where t: "quantum 53 1074 x * 2 ^ t = 2 ^ (63 + 1074 - 53) / 2 ^ 1074"
    using quantum_divides [OF assms, of 53 1074] by auto
  have "quantum 53 1074 x * 1 \<le> quantum 53 1074 x * 2 ^ t"
    using quantum_pos [of 53 1074 x] by (intro mult_left_mono) simp_all
  then have "quantum 53 1074 x \<le> 1024"
    unfolding t pow2_1024 by simp
  then show ?thesis
    using fl_round_error [of 53 1074 x] unfolding dbl_def by linarith
qed

lemma dbl_max_count: "dbl 9223372036854775807 = 9223372036854775808"
  by (subst dbl_binade [where a = 62 and b = 0]) (simp_all add: round_even_def)

lemma dbl_le_2_63:
  assumes "- 1024 \<le> s" and "s < 9223372036854775808 + 1024"
  shows "dbl s \<le> 9223372036854775808"
proof (cases "s < 9223372036854775808")
  case True
  have a: "\<bar>s\<bar> < 2 ^ 64"
    using assms True by (simp add: abs_less_iff)
  have lo: "real_of_int (- 1) * (2 ^ (64 + 1074 - 53) / 2 ^ 1074) \<le> s"
    unfolding pow2_2048 using assms(1) by simp
  have hi: "s \<le> real_of_int 4503599627370496 * (2 ^ (64 + 1074 - 53) / 2 ^ 1074)"
    unfolding pow2_2048 using True by simp
  have "dbl s \<le> real_of_int 4503599627370496 * (2 ^ (64 + 1074 - 53) / 2 ^ 1074)"
    unfolding dbl_def using fl_round_grid [OF a _ _ lo hi] by simp
  then show ?thesis
    unfolding pow2_2048 by simp
next
  case False
  then have b: "2 ^ 63 / 2 ^ 0 \<le> \<bar>s\<bar>" "\<bar>s\<bar> < 2 * 2 ^ 63 / 2 ^ 0"
    using assms(2) by simp_all
  define y where "y = s * 2 ^ (0 + 52) / 2 ^ 63"
  have y: "4503599627370496 \<le> y" "y < 4503599627370496 + 1 / 2"
    unfolding y_def using False assms(2) by simp_all
  then have "\<lfloor>y\<rfloor> = 4503599627370496"
    by linarith
  then have "round_even y = 4503599627370496"
    using y unfolding round_even_def Let_def by simp
  then have "dbl s = 9223372036854775808"
    using dbl_binade [OF b] unfolding y_def [symmetric] by simp
  then show ?thesis
    by simp
qed

lemma not_Overflows:
  assumes "0 \<le> n" and "n + int len \<le> 9223372036854775807"
  shows "\<not> Overflows (dbl (as_double n + dbl (real len)))"
proof -
  have a: "\<bar>real_of_int n\<bar> < 2 ^ 63" "\<bar>real len\<bar> < 2 ^ 63"
    using assms by simp_all
  have s: "real_of_int n + real len \<le> 9223372036854775807"
    using assms(2) by linarith
  have "- 1024 \<le> dbl (real_of_int n) + dbl (real len)"
    "dbl (real_of_int n) + dbl (real len) < 9223372036854775808 + 1024"
    using dbl_error_63 [OF a(1)] dbl_error_63 [OF a(2)] s assms(1) by linarith+
  then have "dbl (dbl (real_of_int n) + dbl (real len)) \<le> 9223372036854775808"
    by (rule dbl_le_2_63)
  then show ?thesis
    unfolding Overflows_def as_double_def dbl_max_count by simp
qed


lemma sampleCount_of_range:
  "- 9223372036854775808 \<le> sampleCount_of d \<and> sampleCount_of d < 9223372036854775808"
  by (simp add: sampleCount_of_def Let_def)



subsection \<open>Buffers and block files\<close>

lemma ClearSamples_same:
  "ClearSamples format buf p format start len = poke buf (p + start) (replicate len 0)"
  by (cases format) (simp_all add: ClearSamples_def)

lemma length_poke: "p + length xs \<le> length buf \<Longrightarrow> length (poke buf p xs) = length buf"
  by (simp add: poke_def)

lemma poke_Nil: "poke buf p [] = buf"
  by (simp add: poke_def)

lemma poke_poke_append:
  "p \<le> length buf \<Longrightarrow> poke (poke buf p xs) (p + length xs) ys = poke buf p (xs @ ys)"
  by (simp add: poke_def ac_simps)

lemma nth_poke:
  "p + length xs \<le> length buf \<Longrightarrow> j < length buf \<Longrightarrow>
   poke buf p xs ! j = (if p \<le> j \<and> j < p + length xs then xs ! (j - p) else buf ! j)"
  by (auto simp: poke_def nth_append)

lemma length_blockData: "length (blockData conv format f) = GetLength f"
  by (cases "(conv, format, f)" rule: blockData.cases) (auto simp: GetLength_def)

lemma nth_take_drop:
  "bstart + blen \<le> length X \<Longrightarrow> i < blen \<Longrightarrow> take blen (drop bstart X) ! i = X ! (bstart + i)"
  by simp

lemma length_take_drop:
  "bstart + blen \<le> length X \<Longrightarrow> length (take blen (drop bstart X)) = blen"
  by simp

lemma length_padded: "length (map g (take n d) @ replicate (n - length d) (0::real)) = n"
  by (simp add: min_def)

lemma take_drop_padded:
  assumes "bstart + blen \<le> n"
  shows "take blen (drop bstart (map g (take n d) @ replicate (n - length d) (0::real)))
         = map g (take blen (drop bstart d))
           @ replicate (blen - length (map g (take blen (drop bstart d)))) 0"
    (is "take blen (drop bstart ?X) = ?fr @ replicate (blen - length ?fr) 0")
proof (rule nth_equalityI)
  have lx: "length ?X = n"
    by (rule length_padded)
  have lfr: "length ?fr = min blen (length d - bstart)"
    by simp
  have l1: "length (take blen (drop bstart ?X)) = blen"
    using assms by (simp only: length_take length_drop lx)
  have l2: "length (?fr @ replicate (blen - length ?fr) 0) = blen"
    unfolding length_append length_replicate lfr by linarith
  show "length (take blen (drop bstart ?X)) = length (?fr @ replicate (blen - length ?fr) 0)"
    by (simp only: l1 l2)
  fix i
  assume "i < length (take blen (drop bstart ?X))"
  then have i: "i < blen"
    by (simp only: l1)
  have "take blen (drop bstart ?X) ! i = ?X ! (bstart + i)"
    using assms i by (intro nth_take_drop) (simp_all only: lx)
  also have "\<dots> = (if bstart + i < length d then g (d ! (bstart + i)) else 0)"
    using i assms by (simp add: nth_append)
  finally have l: "take blen (drop bstart ?X) ! i
                   = (if bstart + i < length d then g (d ! (bstart + i)) else 0)" .
  have r: "(?fr @ replicate (blen - length ?fr) 0) ! i
           = (if bstart + i < length d then g (d ! (bstart + i)) else 0)"
  proof (cases "bstart + i < length d")
    case True
    then have "i < length ?fr"
      using i unfolding lfr by linarith
    then show ?thesis
      using True i by (simp add: nth_append)
  next
    case False
    then have "\<not> i < length ?fr"
      unfolding lfr by linarith
    moreover have "i - length ?fr < blen - length ?fr"
      using i calculation by linarith
    ultimately show ?thesis
      using False by (simp only: nth_append if_False nth_replicate)
  qed
  show "take blen (drop bstart ?X) ! i = (?fr @ replicate (blen - length ?fr) 0) ! i"
    by (simp only: l r)
qed

lemma ReadData_data:
  assumes "bstart + blen \<le> GetLength f" and "mayThrow \<longrightarrow> blockComplete f"
    and "p \<le> length buffer"
  shows "\<exists>r. ReadData conv f buffer p format bstart blen mayThrow
           = Inr (poke buffer p (take blen (drop bstart (blockData conv format f))), r)"
proof (cases f)
  case (Silent n mn mx rms)
  then show ?thesis
    using assms by (simp add: ClearSamples_same GetLength_def)
next
  case (Simple n ff fl)
  show ?thesis
  proof (cases fl)
    case None
    then show ?thesis
      using assms Simple
      by (auto simp: CommonReadData_def ClearSamples_same GetLength_def poke_def)
  next
    case (Some d)
    define fr where "fr = map (conv ff format) (take blen (drop bstart d))"
    have "bstart + blen \<le> n"
      using assms(1) Simple by (simp add: GetLength_def)
    then have pad: "take blen (drop bstart (blockData conv format f)) = fr @ replicate (blen - length fr) 0"
      unfolding fr_def Simple Some blockData.simps by (rule take_drop_padded)
    have rd: "ReadData conv f buffer p format bstart blen mayThrow =
        (if length fr < blen then
           (if mayThrow then Inl FileException
            else Inr (ClearSamples format (poke buffer p fr) p format (length fr) (blen - length fr),
                      length fr))
         else Inr (poke buffer p fr, length fr))"
      unfolding Simple Some fr_def by (simp add: CommonReadData_def Let_def)
    show ?thesis
    proof (cases "length fr < blen")
      case True
      have "length fr = min blen (length d - bstart)"
        by (simp add: fr_def)
      with True have "length d < n"
        using assms(1) Simple by (simp add: GetLength_def)
      then have "\<not> mayThrow"
        using assms(2) Simple Some by auto
      then show ?thesis
        unfolding rd pad
        using True assms(3) poke_poke_append [of p buffer fr]
        by (simp add: ClearSamples_same)
    next
      case False
      then have "length fr = blen"
        by (simp add: fr_def)
      then show ?thesis
        unfolding rd pad by simp
    qed
  qed
qed

subsection \<open>Reading a consistent sequence\<close>


lemma blocksData_Nil: "blocksData conv format [] = []"
  by (simp add: blocksData_def)

lemma blocksData_Cons:
  "blocksData conv format (b # bs) = blockData conv format (sb_f b) @ blocksData conv format bs"
  by (simp add: blocksData_def)

lemma blocksData_append:
  "blocksData conv format (as @ bs) = blocksData conv format as @ blocksData conv format bs"
  by (simp add: blocksData_def)

lemma chain_total: "chain bs pos n \<Longrightarrow> n = pos + int (length (blocksData conv format bs))"
proof (induction bs arbitrary: pos)
  case Nil
  then show ?case by (simp add: blocksData_Nil)
next
  case (Cons a bs)
  from Cons.prems have "chain bs (pos + int (GetLength (sb_f a))) n"
    by simp
  then have "n = pos + int (GetLength (sb_f a)) + int (length (blocksData conv format bs))"
    by (rule Cons.IH)
  then show ?case
    by (simp add: blocksData_Cons length_blockData)
qed

lemma chain_drop:
  "chain bs pos n \<Longrightarrow> b < length bs \<Longrightarrow>
   chain (drop b bs) (sb_start (bs ! b)) n
   \<and> sb_start (bs ! b) = pos + int (length (blocksData conv format (take b bs)))"
proof (induction bs arbitrary: pos b)
  case Nil
  then show ?case by simp
next
  case (Cons a bs)
  show ?case
  proof (cases b)
    case 0
    then show ?thesis
      using Cons.prems by (simp add: blocksData_Nil)
  next
    case (Suc k)
    from Cons.prems Suc have "chain bs (pos + int (GetLength (sb_f a))) n" "k < length bs"
      by simp_all
    then have "chain (drop k bs) (sb_start (bs ! k)) n
      \<and> sb_start (bs ! k) = pos + int (GetLength (sb_f a)) + int (length (blocksData conv format (take k bs)))"
      by (rule Cons.IH)
    then show ?thesis
      using Suc by (auto simp: blocksData_Cons length_blockData)
  qed
qed

lemma take_drop_append_split:
  "o' \<le> length A \<Longrightarrow>
   take len (drop o' (A @ R))
   = take (min len (length A - o')) (drop o' A) @ take (len - min len (length A - o')) R"
  by (cases "len \<le> length A - o'") (simp_all add: min_def)

lemma Sequence_Get_from_data:
  assumes "chain (drop b blocks) pos n"
    and "len = 0 \<or> (pos \<le> start \<and> start + int len \<le> n
                     \<and> start < pos + int (GetLength (sb_f (blocks ! b))))"
    and "mayThrow \<longrightarrow> blocksComplete (drop b blocks)"
    and "p + len \<le> length buffer"
    and "0 \<le> pos" and "n < 9223372036854775808"
  shows "\<exists>ok. Sequence_Get_from conv blocks b buffer p format start len mayThrow result
           = Inr (poke buffer p
                    (take len (drop (nat (start - pos)) (blocksData conv format (drop b blocks)))), ok)"
  using assms
proof (induction "length blocks - b" arbitrary: b buffer p start len result pos rule: less_induct)
  case less
  show ?case
  proof (cases "len = 0")
    case True
    then show ?thesis
      by (subst Sequence_Get_from.simps) (simp add: poke_Nil)
  next
    case False
    with less.prems(2) have st: "pos \<le> start" "start + int len \<le> n"
      "start < pos + int (GetLength (sb_f (blocks ! b)))"
      by auto
    have "n = pos + int (length (blocksData conv format (drop b blocks)))"
      using less.prems(1) by (rule chain_total)
    with st False have "drop b blocks \<noteq> []"
      by (auto simp: blocksData_Nil)
    then have b: "b < length blocks"
      by simp
    then have dr: "drop b blocks = blocks ! b # drop (Suc b) blocks"
      by (simp add: Cons_nth_drop_Suc)
    define blk where "blk = blocks ! b"
    define L where "L = GetLength (sb_f blk)"
    define bstart where "bstart = nat (start - pos)"
    define blen where "blen = min len (L - bstart)"
    define BD where "BD = blockData conv format (sb_f blk)"
    define rest where "rest = blocksData conv format (drop (Suc b) blocks)"
    have ch: "sb_start blk = pos" "0 < L" "chain (drop (Suc b) blocks) (pos + int L) n"
      using less.prems(1) unfolding dr blk_def L_def by simp_all
    have bs: "bstart < L"
      using st unfolding bstart_def L_def blk_def by linarith
    have lBD: "length BD = L"
      unfolding BD_def L_def by (rule length_blockData)
    have blen_le: "bstart + blen \<le> L" "blen \<le> len"
      using bs unfolding blen_def by linarith+
    have compl: "mayThrow \<longrightarrow> blockComplete (sb_f blk)" "mayThrow \<longrightarrow> blocksComplete (drop (Suc b) blocks)"
      using less.prems(3) unfolding dr blk_def blocksComplete_def by simp_all
    define X where "X = take blen (drop bstart BD)"
    have lX: "length X = blen"
      unfolding X_def using blen_le lBD by (intro length_take_drop) simp
    obtain r where rd: "ReadData conv (sb_f blk) buffer p format bstart blen mayThrow
                        = Inr (poke buffer p X, r)"
      using ReadData_data [of bstart blen "sb_f blk" mayThrow p buffer conv format]
        blen_le compl less.prems(4) unfolding X_def BD_def L_def by auto
    define buffer' where "buffer' = poke buffer p X"
    have lb': "length buffer' = length buffer"
      unfolding buffer'_def using lX blen_le less.prems(4) by (intro length_poke) simp
    have w1: "wrap64 (start - pos) = start - pos"
      using st less.prems(5,6) by (intro wrap64_id) linarith+
    have w2: "wrap64 (start + int blen) = start + int blen"
      using st less.prems(5,6) blen_le by (intro wrap64_id) linarith+
    have step: "Sequence_Get_from conv blocks b buffer p format start len mayThrow result
          = Sequence_Get_from conv blocks (Suc b) buffer' (p + blen) format (start + int blen)
              (len - blen) mayThrow (result \<and> r = blen)"
      apply (subst Sequence_Get_from.simps)
      using False b st bs blen_le rd
      unfolding blk_def [symmetric]
      by (simp add: Let_def Sequence_Read_def ch w1 w2 L_def [symmetric] bstart_def [symmetric]
                    blen_def [symmetric] buffer'_def)
    have ih_pre: "len - blen = 0 \<or> (pos + int L \<le> start + int blen
                    \<and> start + int blen + int (len - blen) \<le> n
                    \<and> start + int blen < pos + int L + int (GetLength (sb_f (blocks ! Suc b))))"
    proof (cases "len - blen = 0")
      case True
      then show ?thesis by simp
    next
      case nz: False
      then have e: "blen = L - bstart"
        unfolding blen_def by linarith
      then have sp: "start + int blen = pos + int L"
        using bs st unfolding bstart_def by linarith
      have "n = (pos + int L) + int (length (blocksData conv format (drop (Suc b) blocks)))"
        using ch(3) by (rule chain_total)
      with sp st nz blen_le have ne: "drop (Suc b) blocks \<noteq> []"
        by (auto simp: blocksData_Nil)
      then have sb: "Suc b < length blocks"
        by simp
      then have "drop (Suc b) blocks = blocks ! Suc b # drop (Suc (Suc b)) blocks"
        by (simp add: Cons_nth_drop_Suc)
      with ch(3) have "0 < GetLength (sb_f (blocks ! Suc b))"
        by simp
      with sp st blen_le show ?thesis
        by simp
    qed
    have lt: "length blocks - Suc b < length blocks - b"
      using b by linarith
    have buf': "p + blen + (len - blen) \<le> length buffer'"
      using lb' less.prems(4) blen_le by linarith
    have pL: "0 \<le> pos + int L"
      using less.prems(5) by linarith
    have "\<exists>ok. Sequence_Get_from conv blocks (Suc b) buffer' (p + blen) format
          (start + int blen) (len - blen) mayThrow (result \<and> r = blen)
        = Inr (poke buffer' (p + blen)
                (take (len - blen) (drop (nat (start + int blen - (pos + int L)))
                   (blocksData conv format (drop (Suc b) blocks)))), ok)"
      using lt ch(3) ih_pre compl(2) buf' pL less.prems(6) by (rule less.hyps)
    then obtain ok where ih: "Sequence_Get_from conv blocks (Suc b) buffer' (p + blen) format
          (start + int blen) (len - blen) mayThrow (result \<and> r = blen)
        = Inr (poke buffer' (p + blen)
                (take (len - blen) (drop (nat (start + int blen - (pos + int L))) rest)), ok)"
      unfolding rest_def by blast
    have Y: "take (len - blen) (drop (nat (start + int blen - (pos + int L))) rest)
             = take (len - blen) rest"
    proof (cases "len - blen = 0")
      case True
      then show ?thesis by simp
    next
      case False
      then have "blen = L - bstart"
        unfolding blen_def by linarith
      then have "start + int blen = pos + int L"
        using bs st unfolding bstart_def by linarith
      then show ?thesis by simp
    qed
    have tgt: "take len (drop (nat (start - pos)) (blocksData conv format (drop b blocks)))
               = X @ take (len - blen) rest"
      unfolding dr blocksData_Cons bstart_def [symmetric] blk_def [symmetric] BD_def [symmetric]
        rest_def [symmetric] X_def blen_def lBD [symmetric]
      using bs lBD by (intro take_drop_append_split) simp
    have "poke buffer' (p + blen) (take (len - blen) rest) = poke buffer p (X @ take (len - blen) rest)"
      unfolding buffer'_def using poke_poke_append [of p buffer X] less.prems(4) lX by simp
    then show ?thesis
      unfolding step ih Y tgt by simp
  qed
qed

lemma min_guess_range: "lo < hi \<Longrightarrow> lo \<le> min (hi - 1) (lo + k) \<and> min (hi - 1) (lo + k) < (hi::nat)"
  by linarith

lemma FindBlock_guess_range:
  "lo < hi \<Longrightarrow> lo \<le> FindBlock_guess pos lo hi a b \<and> FindBlock_guess pos lo hi a b < hi"
  unfolding FindBlock_guess_def Let_def by (rule min_guess_range)

lemma chain_block_start:
  assumes "chain blocks 0 n" and "g < length blocks"
  shows "sb_start (blocks ! g) = int (length (blocksData conv format (take g blocks)))"
  using chain_drop [OF assms, of conv format] by simp

lemma chain_block_chain:
  assumes "chain blocks 0 n" and "g < length blocks"
  shows "chain (drop g blocks) (sb_start (blocks ! g)) n"
  using chain_drop [OF assms, of "\<lambda>a b x. x" floatSample] by blast

lemma chain_block_pos:
  assumes "chain blocks 0 n" and "g < length blocks"
  shows "0 < GetLength (sb_f (blocks ! g))"
proof -
  have "drop g blocks = blocks ! g # drop (Suc g) blocks"
    using assms(2) by (simp add: Cons_nth_drop_Suc)
  with chain_block_chain [OF assms] show ?thesis
    by simp
qed

lemma chain_block_end:
  assumes "chain blocks 0 n" and "g < length blocks"
  shows "0 \<le> sb_start (blocks ! g)"
    and "sb_start (blocks ! g) + int (GetLength (sb_f (blocks ! g))) \<le> n"
proof -
  show "0 \<le> sb_start (blocks ! g)"
    using chain_block_start [OF assms, of "\<lambda>a b x. x" floatSample] by simp
  have d: "drop g blocks = blocks ! g # drop (Suc g) blocks"
    using assms(2) by (simp add: Cons_nth_drop_Suc)
  have "n = sb_start (blocks ! g)
            + int (length (blocksData (\<lambda>a b x. x) floatSample (drop g blocks)))"
    using chain_block_chain [OF assms] by (rule chain_total)
  then show "sb_start (blocks ! g) + int (GetLength (sb_f (blocks ! g))) \<le> n"
    unfolding d by (simp add: blocksData_Cons length_blockData)
qed

lemma length_blocksData_Suc:
  "g < length blocks \<Longrightarrow>
   length (blocksData conv format (take (Suc g) blocks))
   = length (blocksData conv format (take g blocks)) + GetLength (sb_f (blocks ! g))"
  by (simp add: take_Suc_conv_app_nth blocksData_append blocksData_Cons blocksData_Nil length_blockData)

lemma FindBlock_loop_ok:
  assumes "chain blocks 0 n" and n63: "n < 9223372036854775808"
    and "lo < hi" and "hi \<le> length blocks"
    and "int (length (blocksData conv format (take lo blocks))) \<le> pos"
    and "pos < int (length (blocksData conv format (take hi blocks)))"
  shows "\<exists>g. FindBlock_loop blocks pos lo hi loSamples hiSamples = Inr g \<and> g < length blocks
             \<and> sb_start (blocks ! g) \<le> pos
             \<and> pos < sb_start (blocks ! g) + int (GetLength (sb_f (blocks ! g)))"
  using assms(3-)
proof (induction "hi - lo" arbitrary: lo hi loSamples hiSamples rule: less_induct)
  case less
  define guess where "guess = FindBlock_guess pos lo hi loSamples hiSamples"
  have g: "lo \<le> guess" "guess < hi"
    using FindBlock_guess_range [OF less.prems(1)] unfolding guess_def by simp_all
  then have gl: "guess < length blocks"
    using less.prems(2) by linarith
  note cb = chain_block_start [OF assms(1) gl, of conv format] chain_block_pos [OF assms(1) gl]
  have we: "wrap64 (sb_start (blocks ! guess) + int (GetLength (sb_f (blocks ! guess))))
            = sb_start (blocks ! guess) + int (GetLength (sb_f (blocks ! guess)))"
    using chain_block_end [OF assms(1) gl] n63 by (intro wrap64_id) linarith+
  have sS: "int (length (blocksData conv format (take (Suc guess) blocks)))
            = sb_start (blocks ! guess) + int (GetLength (sb_f (blocks ! guess)))"
    using length_blocksData_Suc [OF gl, of conv format] cb(1) by simp
  show ?case
  proof (cases "pos < sb_start (blocks ! guess)")
    case True
    have ne: "lo \<noteq> guess"
      using True cb(1) less.prems(3) by auto
    have step: "FindBlock_loop blocks pos lo hi loSamples hiSamples
                = FindBlock_loop blocks pos lo guess loSamples (sb_start (blocks ! guess))"
      apply (subst FindBlock_loop.simps)
      unfolding guess_def [symmetric] Let_def
      using gl cb(2) g less.prems(1) True ne by simp
    have "guess - lo < hi - lo"
      using g ne by linarith
    moreover have "lo < guess"
      using g ne by linarith
    moreover have "guess \<le> length blocks"
      using gl by simp
    moreover note less.prems(3)
    moreover have "pos < int (length (blocksData conv format (take guess blocks)))"
      using True cb(1) by simp
    ultimately show ?thesis
      unfolding step by (rule less.hyps)
  next
    case False
    show ?thesis
    proof (cases "pos < sb_start (blocks ! guess) + int (GetLength (sb_f (blocks ! guess)))")
      case True
      have "FindBlock_loop blocks pos lo hi loSamples hiSamples = Inr guess"
        apply (subst FindBlock_loop.simps)
        unfolding guess_def [symmetric] Let_def we
        using gl cb(2) g less.prems(1) True False by simp
      then show ?thesis
        using gl True False by simp
    next
      case nx: False
      have gh: "guess < hi - 1"
      proof (rule ccontr)
        assume "\<not> guess < hi - 1"
        then have "Suc guess = hi"
          using g by linarith
        then show False
          using nx sS less.prems(4) by simp
      qed
      have step: "FindBlock_loop blocks pos lo hi loSamples hiSamples
                  = FindBlock_loop blocks pos (guess + 1) hi
                      (sb_start (blocks ! guess) + int (GetLength (sb_f (blocks ! guess)))) hiSamples"
        apply (subst FindBlock_loop.simps)
        unfolding guess_def [symmetric] Let_def we
        using gl cb(2) g less.prems(1) False nx gh by simp
      have "hi - (guess + 1) < hi - lo"
        using g gh by linarith
      moreover have "guess + 1 < hi"
        using gh by linarith
      moreover note less.prems(2)
      moreover have "int (length (blocksData conv format (take (guess + 1) blocks))) \<le> pos"
        using nx sS by simp
      moreover note less.prems(4)
      ultimately show ?thesis
        unfolding step by (rule less.hyps)
    qed
  qed
qed

lemma FindBlock_ok:
  assumes "consistent s" and "0 \<le> pos" and "pos < mNumSamples s"
    and n63: "mNumSamples s < 9223372036854775808"
  shows "\<exists>g. FindBlock s pos = Inr g \<and> g < length (mBlock s)
             \<and> sb_start (mBlock s ! g) \<le> pos
             \<and> pos < sb_start (mBlock s ! g) + int (GetLength (sb_f (mBlock s ! g)))"
proof -
  have ch: "chain (mBlock s) 0 (mNumSamples s)"
    using assms(1) by (simp add: consistent_def)
  have tot: "mNumSamples s = int (length (blocksData (\<lambda>a b x. x) floatSample (mBlock s)))"
    using chain_total [OF ch] by simp
  with assms have ne: "mBlock s \<noteq> []"
    by (auto simp: blocksData_Nil)
  then have l0: "0 < length (mBlock s)"
    by simp
  show ?thesis
  proof (cases "pos = 0")
    case True
    then show ?thesis
      using chain_block_start [OF ch l0, of "\<lambda>a b x. x" floatSample] chain_block_pos [OF ch l0]
        assms l0
      by (simp add: FindBlock_def blocksData_Nil)
  next
    case False
    have "\<exists>g. FindBlock_loop (mBlock s) pos 0 (length (mBlock s)) 0 (mNumSamples s) = Inr g
             \<and> g < length (mBlock s)
             \<and> sb_start (mBlock s ! g) \<le> pos
             \<and> pos < sb_start (mBlock s ! g) + int (GetLength (sb_f (mBlock s ! g)))"
      using ch n63 l0
    proof (rule FindBlock_loop_ok [where conv = "\<lambda>a b x. x" and format = floatSample])
      show "length (mBlock s) \<le> length (mBlock s)"
        by simp
      show "int (length (blocksData (\<lambda>a b x. x) floatSample (take 0 (mBlock s)))) \<le> pos"
        using assms(2) by (simp add: blocksData_Nil)
      show "pos < int (length (blocksData (\<lambda>a b x. x) floatSample (take (length (mBlock s)) (mBlock s))))"
        using assms(3) tot by simp
    qed
    then show ?thesis
      using False assms by (simp add: FindBlock_def)
  qed
qed

lemma Sequence_Get_data:
  assumes "consistent s" and "0 \<le> start" and "start + int len \<le> mNumSamples s"
    and "mayThrow \<longrightarrow> seqComplete s" and "p + len \<le> length buffer"
    and n63: "mNumSamples s < 9223372036854775808"
  shows "\<exists>ok. Sequence_Get conv s buffer p format start len mayThrow
           = Inr (poke buffer p (take len (drop (nat start) (seqData conv format s))), ok)"
proof (cases "start = mNumSamples s")
  case True
  then have "len = 0"
    using assms(3) by simp
  then show ?thesis
    using True by (auto simp: Sequence_Get_def poke_Nil)
next
  case False
  then have lt: "start < mNumSamples s"
    using assms(3) by linarith
  have ch: "chain (mBlock s) 0 (mNumSamples s)"
    using assms(1) by (simp add: consistent_def)
  obtain g where g: "FindBlock s start = Inr g" "g < length (mBlock s)"
      "sb_start (mBlock s ! g) \<le> start"
      "start < sb_start (mBlock s ! g) + int (GetLength (sb_f (mBlock s ! g)))"
    using FindBlock_ok [OF assms(1,2) lt n63] by blast
  have ws: "wrap64 (start + int len) = start + int len"
    using assms(2,3) n63 by (intro wrap64_id) linarith+
  note cb = chain_block_start [OF ch g(2), of conv format] chain_block_pos [OF ch g(2)]
    chain_block_chain [OF ch g(2)]
  have compl: "mayThrow \<longrightarrow> blocksComplete (drop g (mBlock s))"
    using assms(4) by (auto simp: seqComplete_def blocksComplete_def list_all_iff dest: in_set_dropD)
  have pre: "len = 0 \<or> (sb_start (mBlock s ! g) \<le> start \<and> start + int len \<le> mNumSamples s
                 \<and> start < sb_start (mBlock s ! g) + int (GetLength (sb_f (mBlock s ! g))))"
    using g assms(3) by simp
  obtain ok where r: "Sequence_Get_from conv (mBlock s) g buffer p format start len mayThrow True
      = Inr (poke buffer p (take len (drop (nat (start - sb_start (mBlock s ! g)))
               (blocksData conv format (drop g (mBlock s))))), ok)"
    using Sequence_Get_from_data [OF cb(3) pre compl assms(5) chain_block_end(1) [OF ch g(2)] n63,
        of conv format True]
    by blast
  define A where "A = blocksData conv format (take g (mBlock s))"
  define B where "B = blocksData conv format (drop g (mBlock s))"
  have AB: "seqData conv format s = A @ B"
    unfolding seqData_def A_def B_def blocksData_append [symmetric] by simp
  have "nat start = length A + nat (start - sb_start (mBlock s ! g))"
    using g(3) assms(2) cb(1) unfolding A_def by linarith
  then have "drop (nat start) (A @ B) = drop (nat (start - sb_start (mBlock s ! g))) B"
    by simp
  then show ?thesis
    using False assms(2,3) g(1) r unfolding AB B_def [symmetric]
    by (simp add: Sequence_Get_def ws)
qed

subsection \<open>Reading a well-formed track\<close>

lemma consistent_nonneg: "consistent s \<Longrightarrow> 0 \<le> mNumSamples s"
  using chain_total [of "mBlock s" 0 "mNumSamples s" "\<lambda>a b x. x" floatSample]
  by (simp add: consistent_def)

lemma length_seqData: "consistent s \<Longrightarrow> int (length (seqData conv format s)) = mNumSamples s"
  using chain_total [of "mBlock s" 0 "mNumSamples s" conv format]
  by (simp add: consistent_def seqData_def)

lemma clip_in_reach_fields:
  assumes "clip_in_reach c"
  shows "GetEndSample c = GetStartSample c + mNumSamples (mSequence c)"
    and "0 \<le> mNumSamples (mSequence c)" and "mNumSamples (mSequence c) < 9223372036854775808"
    and "- 4611686018427387904 \<le> GetStartSample c"
    and "GetStartSample c + mNumSamples (mSequence c) < 4611686018427387904"
proof -
  have r: "- 4611686018427387904 \<le> GetStartSample c"
    "GetStartSample c \<le> GetStartSample c + mNumSamples (mSequence c)"
    "GetStartSample c + mNumSamples (mSequence c) < 4611686018427387904"
    using assms by (simp_all add: clip_in_reach_def in_reach_def)
  show "GetEndSample c = GetStartSample c + mNumSamples (mSequence c)"
    unfolding GetEndSample_def using r by (intro wrap64_id) linarith+
  show "0 \<le> mNumSamples (mSequence c)" "mNumSamples (mSequence c) < 9223372036854775808"
    "- 4611686018427387904 \<le> GetStartSample c"
    "GetStartSample c + mNumSamples (mSequence c) < 4611686018427387904"
    using r by linarith+
qed

text \<open>One clip stores its part of the request.\<close>

lemma clip_write:
  assumes cons: "consistent (mSequence c)" and reach: "clip_in_reach c"
    and a: "a = max start (GetStartSample c)" and e: "e = min (start + int len) (GetEndSample c)"
    and ae: "a \<le> e"
    and buf: "p + len \<le> length buffer"
    and compl: "mayThrow \<longrightarrow> seqComplete (mSequence c)"
  shows "\<exists>buffer' ok. GetSamples conv c buffer (p + nat (a - start)) format (a - GetStartSample c)
                          (nat (e - a)) mayThrow = Inr (buffer', ok)
           \<and> length buffer' = length buffer
           \<and> (\<forall>j < length buffer. buffer' ! j =
                 (if p \<le> j \<and> j < p + len \<and> covers (start + int (j - p)) c
                  then clipSample conv format c (start + int (j - p)) else buffer ! j))"
proof -
  define D where "D = seqData conv format (mSequence c)"
  define q where "q = p + nat (a - start)"
  define cnt where "cnt = nat (e - a)"
  define off where "off = nat (a - GetStartSample c)"
  define W where "W = take cnt (drop off D)"
  have lD: "int (length D) = mNumSamples (mSequence c)"
    unfolding D_def using cons by (rule length_seqData)
  have r1: "0 \<le> a - GetStartSample c"
    using a by linarith
  note cr = clip_in_reach_fields [OF reach]
  have r2: "a - GetStartSample c + int cnt \<le> mNumSamples (mSequence c)"
    using a e ae unfolding cnt_def cr(1) by linarith
  have r3: "q + cnt \<le> length buffer"
    using a e ae buf unfolding q_def cnt_def by linarith
  obtain ok where g: "Sequence_Get conv (mSequence c) buffer q format (a - GetStartSample c) cnt mayThrow
      = Inr (poke buffer q W, ok)"
    using Sequence_Get_data [OF cons r1 r2 compl r3 cr(3), of conv format]
    unfolding W_def D_def off_def by blast
  have lW: "length W = cnt"
    unfolding W_def using r1 r2 lD unfolding off_def by (intro length_take_drop) linarith
  have lb: "length (poke buffer q W) = length buffer"
    using r3 lW by (intro length_poke) simp
  have val: "poke buffer q W ! j =
       (if p \<le> j \<and> j < p + len \<and> covers (start + int (j - p)) c
        then clipSample conv format c (start + int (j - p)) else buffer ! j)"
    if j: "j < length buffer" for j
  proof -
    have np: "poke buffer q W ! j = (if q \<le> j \<and> j < q + cnt then W ! (j - q) else buffer ! j)"
      using nth_poke [of q W buffer j] r3 lW j by simp
    have iff: "(q \<le> j \<and> j < q + cnt) = (p \<le> j \<and> j < p + len \<and> covers (start + int (j - p)) c)"
      unfolding covers_def q_def cnt_def using a e ae by linarith
    show ?thesis
    proof (cases "q \<le> j \<and> j < q + cnt")
      case True
      then have pj: "p \<le> j" "j < p + len"
        using iff by blast+
      have "W ! (j - q) = D ! (off + (j - q))"
        unfolding W_def using True r1 r2 lD unfolding off_def
        by (intro nth_take_drop) linarith+
      also have "off + (j - q) = nat (start + int (j - p) - GetStartSample c)"
        using True a pj unfolding off_def q_def by linarith
      finally have "W ! (j - q) = clipSample conv format c (start + int (j - p))"
        unfolding clipSample_def D_def .
      then show ?thesis
        unfolding np iff [symmetric] using True by (simp only: if_True simp_thms)
    next
      case False
      then show ?thesis
        unfolding np iff [symmetric] by (simp only: if_False simp_thms)
    qed
  qed
  show ?thesis
    unfolding GetSamples_def q_def [symmetric] cnt_def [symmetric]
    using g lb val by simp
qed

lemma find_covers_None:
  "list_all (\<lambda>d. GetEndSample c \<le> GetStartSample d \<or> GetEndSample d \<le> GetStartSample c) cs \<Longrightarrow>
   covers pos c \<Longrightarrow> find (covers pos) cs = None"
  by (induction cs) (auto simp: covers_def)

lemma Get_clips_data:
  assumes "list_all (\<lambda>c. consistent (mSequence c)) cs" and "clips_disjoint cs"
    and "p + len \<le> length buffer" and "mayThrow \<longrightarrow> allComplete cs"
    and "list_all clip_in_reach cs" and rq: "in_reach start (start + int len)"
  shows "\<exists>buffer' ok k. Get_clips conv cs buffer p format start len mayThrow result sc
           = Inr (buffer', ok, k)
         \<and> length buffer' = length buffer
         \<and> (\<forall>j < length buffer. buffer' ! j =
               (if p \<le> j \<and> j < p + len
                then (case find (covers (start + int (j - p))) cs of
                        None \<Rightarrow> buffer ! j
                      | Some c \<Rightarrow> clipSample conv format c (start + int (j - p)))
                else buffer ! j))"
  using assms
proof (induction cs arbitrary: buffer result sc)
  case Nil
  then show ?case by simp
next
  case (Cons c cs)
  have cons: "consistent (mSequence c)" and consr: "list_all (\<lambda>c. consistent (mSequence c)) cs"
    using Cons.prems(1) by simp_all
  have dj: "list_all (\<lambda>d. GetEndSample c \<le> GetStartSample d \<or> GetEndSample d \<le> GetStartSample c) cs"
    and djr: "clips_disjoint cs"
    using Cons.prems(2) by simp_all
  have compl: "mayThrow \<longrightarrow> seqComplete (mSequence c)" and complr: "mayThrow \<longrightarrow> allComplete cs"
    using Cons.prems(4) by (simp_all add: allComplete_def)
  have reach: "clip_in_reach c" and reachr: "list_all clip_in_reach cs"
    using Cons.prems(5) by simp_all
  note cr = clip_in_reach_fields [OF reach]
  have rs: "- 4611686018427387904 \<le> start" "start + int len < 4611686018427387904"
    using rq by (simp_all add: in_reach_def)
  have wl: "wrap64 (start + int len) = start + int len"
    using rs by (intro wrap64_id) linarith+
  have wd: "wrap64 (start + int len - GetStartSample c) = start + int len - GetStartSample c"
    using rs cr by (intro wrap64_id) linarith+
  have wsd: "wrap64 (GetStartSample c - start) = GetStartSample c - start"
    using rs cr by (intro wrap64_id) linarith+
  have wn: "wrap64 (- (GetStartSample c - start)) = - (GetStartSample c - start)"
    using rs cr by (intro wrap64_id) linarith+
  show ?case
  proof (cases "GetEndSample c > start \<and> GetStartSample c < start + int len")
    case False
    then have nc: "\<not> covers (start + int (j - p)) c" if "p \<le> j \<and> j < p + len" for j
      using that unfolding covers_def by linarith
    have step: "Get_clips conv (c # cs) buffer p format start len mayThrow result sc
          = Get_clips conv cs buffer p format start len mayThrow result sc"
      unfolding Get_clips.simps Let_def wl using False by (rule if_not_P)
    obtain buffer' ok k where ih:
      "Get_clips conv cs buffer p format start len mayThrow result sc = Inr (buffer', ok, k)"
      "length buffer' = length buffer"
      "\<forall>j < length buffer. buffer' ! j =
               (if p \<le> j \<and> j < p + len
                then (case find (covers (start + int (j - p))) cs of
                        None \<Rightarrow> buffer ! j
                      | Some c \<Rightarrow> clipSample conv format c (start + int (j - p)))
                else buffer ! j)"
      using Cons.IH [OF consr djr Cons.prems(3) complr reachr rq, of result sc] by blast
    show ?thesis
      unfolding step using ih nc by auto
  next
    case True
    define a where "a = max start (GetStartSample c)"
    define e where "e = min (start + int len) (GetEndSample c)"
    have ae: "a \<le> e"
      using True cr(2) unfolding a_def e_def cr(1) by linarith
    obtain buffer1 ok1 where w:
      "GetSamples conv c buffer (p + nat (a - start)) format (a - GetStartSample c)
         (nat (e - a)) mayThrow = Inr (buffer1, ok1)"
      "length buffer1 = length buffer"
      "\<forall>j < length buffer. buffer1 ! j =
                 (if p \<le> j \<and> j < p + len \<and> covers (start + int (j - p)) c
                  then clipSample conv format c (start + int (j - p)) else buffer ! j)"
      using clip_write [OF cons reach a_def e_def ae Cons.prems(3) compl, of conv format] by blast
    have e1: "(if GetStartSample c - start < 0 then - (GetStartSample c - start) else 0)
              = a - GetStartSample c"
      unfolding a_def by (simp add: max_def)
    have e2: "(if GetStartSample c - start < 0
               then min (start + int len - GetStartSample c) (GetNumSamples c) - (a - GetStartSample c)
               else min (start + int len - GetStartSample c) (GetNumSamples c)) = e - a"
      unfolding a_def e_def cr(1) GetNumSamples_def by (simp add: max_def min_def)
    have w4: "wrap64 (min (start + int len - GetStartSample c) (GetNumSamples c)
                - (a - GetStartSample c))
              = min (start + int len - GetStartSample c) (GetNumSamples c) - (a - GetStartSample c)"
      using rs cr ae unfolding a_def e_def GetNumSamples_def
      by (intro wrap64_id) (simp_all add: max_def min_def)
    have e3: "(if GetStartSample c - start < 0 then 0 else GetStartSample c - start) = a - start"
      unfolding a_def by (simp add: max_def)
    have step: "Get_clips conv (c # cs) buffer p format start len mayThrow result sc
          = (if \<not> ok1 then Get_clips conv cs buffer1 p format start len mayThrow False sc
             else Get_clips conv cs buffer1 p format start len mayThrow result
                    (wrap64 (sc + (e - a))))"
      unfolding Get_clips.simps Let_def wl wd wsd wn e1 w4 e2 e3
      using True ae w(1) by simp
    have b1: "p + len \<le> length buffer1"
      using w(2) Cons.prems(3) by simp
    obtain buffer' ok k where ih:
      "(if \<not> ok1 then Get_clips conv cs buffer1 p format start len mayThrow False sc
        else Get_clips conv cs buffer1 p format start len mayThrow result (wrap64 (sc + (e - a))))
       = Inr (buffer', ok, k)"
      "length buffer' = length buffer1"
      "\<forall>j < length buffer1. buffer' ! j =
               (if p \<le> j \<and> j < p + len
                then (case find (covers (start + int (j - p))) cs of
                        None \<Rightarrow> buffer1 ! j
                      | Some c \<Rightarrow> clipSample conv format c (start + int (j - p)))
                else buffer1 ! j)"
      using Cons.IH [OF consr djr b1 complr reachr rq, of False sc]
        Cons.IH [OF consr djr b1 complr reachr rq, of result "wrap64 (sc + (e - a))"]
      by (cases ok1) auto
    have "buffer' ! j =
               (if p \<le> j \<and> j < p + len
                then (case find (covers (start + int (j - p))) (c # cs) of
                        None \<Rightarrow> buffer ! j
                      | Some c \<Rightarrow> clipSample conv format c (start + int (j - p)))
                else buffer ! j)" if j: "j < length buffer" for j
    proof -
      have j1: "j < length buffer1"
        using j w(2) by simp
      note F1 = ih(3) [rule_format, OF j1]
      note F2 = w(3) [rule_format, OF j]
      show ?thesis
      proof (cases "p \<le> j \<and> j < p + len")
        case inr: True
        show ?thesis
        proof (cases "covers (start + int (j - p)) c")
          case True
          then have n: "find (covers (start + int (j - p))) cs = None"
            using find_covers_None [OF dj] by blast
          have "buffer1 ! j = clipSample conv format c (start + int (j - p))"
            unfolding F2 using inr True by (simp only: if_True simp_thms)
          then show ?thesis
            unfolding F1 find.simps n using inr True by (simp only: if_True simp_thms option.case)
        next
          case False
          have "buffer1 ! j = buffer ! j"
            unfolding F2 using inr False by (simp only: if_False simp_thms)
          then show ?thesis
            unfolding F1 find.simps using inr False by (simp only: if_True if_False simp_thms)
        qed
      next
        case False
        have "buffer1 ! j = buffer ! j"
          unfolding F2 using False by auto
        then show ?thesis
          unfolding F1 using False by (simp only: if_False simp_thms)
      qed
    qed
    then show ?thesis
      unfolding step using ih(1,2) w(2) by simp
  qed
qed

lemma Get_doClear_False:
  "\<not> Get_doClear cs start len \<Longrightarrow>
   \<exists>c \<in> set cs. GetStartSample c \<le> start \<and> wrap64 (start + int len) \<le> GetEndSample c"
  by (induction cs) (auto split: if_splits)

lemma find_covers_Some:
  "c \<in> set cs \<Longrightarrow> covers pos c \<Longrightarrow> \<exists>d. find (covers pos) cs = Some d"
  by (induction cs) auto

lemma WaveTrack_Get_data:
  assumes "wellformed (mClips t)" and "p + len \<le> length buffer"
    and "mayThrow \<longrightarrow> allComplete (mClips t)"
    and rq: "in_reach start (start + int len)"
  shows "\<exists>buffer' ok k. WaveTrack_Get conv t buffer p format start len fillZero mayThrow
           = Inr (buffer', ok, k)
         \<and> length buffer' = length buffer
         \<and> (\<forall>j < length buffer. buffer' ! j =
               (if p \<le> j \<and> j < p + len
                then trackSample conv format (mClips t) (start + int (j - p))
                else buffer ! j))"
proof -
  have wf: "list_all (\<lambda>c. consistent (mSequence c)) (mClips t)" "clips_disjoint (mClips t)"
    and rc: "list_all clip_in_reach (mClips t)"
    using assms(1) by (simp_all add: wellformed_def)
  have wl: "wrap64 (start + int len) = start + int len"
    using rq unfolding in_reach_def by (intro wrap64_id) linarith+
  show ?thesis
  proof (cases "Get_doClear (mClips t) start len")
    case True
    define buffer0 where "buffer0 = ClearSamples format buffer p format 0 len"
    have b0: "buffer0 = poke buffer p (replicate len 0)"
      by (simp add: buffer0_def ClearSamples_same)
    have l0: "length buffer0 = length buffer"
      unfolding b0 using assms(2) by (intro length_poke) simp
    have v0: "buffer0 ! j = (if p \<le> j \<and> j < p + len then 0 else buffer ! j)"
      if "j < length buffer" for j
    proof -
      have np: "buffer0 ! j = (if p \<le> j \<and> j < p + len then replicate len 0 ! (j - p) else buffer ! j)"
        unfolding b0 using nth_poke [of p "replicate len 0" buffer j] assms(2) that by simp
      show ?thesis
      proof (cases "p \<le> j \<and> j < p + len")
        case True
        then have "j - p < len"
          by linarith
        then have "replicate len (0::real) ! (j - p) = 0"
          by (rule nth_replicate)
        then show ?thesis
          unfolding np using True by (simp only: if_True simp_thms)
      next
        case False
        then show ?thesis
          unfolding np by (simp only: if_False simp_thms)
      qed
    qed
    have pb: "p + len \<le> length buffer0"
      using l0 assms(2) by simp
    obtain buffer' ok k where g:
      "Get_clips conv (mClips t) buffer0 p format start len mayThrow True 0 = Inr (buffer', ok, k)"
      "length buffer' = length buffer0"
      "\<forall>j < length buffer0. buffer' ! j =
               (if p \<le> j \<and> j < p + len
                then (case find (covers (start + int (j - p))) (mClips t) of
                        None \<Rightarrow> buffer0 ! j
                      | Some c \<Rightarrow> clipSample conv format c (start + int (j - p)))
                else buffer0 ! j)"
      using Get_clips_data [OF wf pb assms(3) rc rq, of conv format True 0] by blast
    have "buffer' ! j = (if p \<le> j \<and> j < p + len
                then trackSample conv format (mClips t) (start + int (j - p))
                else buffer ! j)" if j: "j < length buffer" for j
    proof -
      have F: "buffer' ! j =
               (if p \<le> j \<and> j < p + len
                then (case find (covers (start + int (j - p))) (mClips t) of
                        None \<Rightarrow> buffer0 ! j
                      | Some c \<Rightarrow> clipSample conv format c (start + int (j - p)))
                else buffer0 ! j)"
        using g(3) j l0 by simp
      show ?thesis
      proof (cases "p \<le> j \<and> j < p + len")
        case True
        then have z: "buffer0 ! j = 0"
          using v0 [OF j] by (simp only: if_True simp_thms)
        show ?thesis
          unfolding F trackSample_def z using True by (simp only: if_True simp_thms)
      next
        case False
        then have z: "buffer0 ! j = buffer ! j"
          using v0 [OF j] by (simp only: if_False simp_thms)
        show ?thesis
          unfolding F z using False by (simp only: if_False simp_thms)
      qed
    qed
    then show ?thesis
      using True g(1,2) l0 by (simp add: WaveTrack_Get_def buffer0_def)
  next
    case False
    then obtain c where c: "c \<in> set (mClips t)" "GetStartSample c \<le> start"
        "start + int len \<le> GetEndSample c"
      using Get_doClear_False [of "mClips t" start len] unfolding wl by blast
    obtain buffer' ok k where g:
      "Get_clips conv (mClips t) buffer p format start len mayThrow True 0 = Inr (buffer', ok, k)"
      "length buffer' = length buffer"
      "\<forall>j < length buffer. buffer' ! j =
               (if p \<le> j \<and> j < p + len
                then (case find (covers (start + int (j - p))) (mClips t) of
                        None \<Rightarrow> buffer ! j
                      | Some c \<Rightarrow> clipSample conv format c (start + int (j - p)))
                else buffer ! j)"
      using Get_clips_data [OF wf assms(2,3) rc rq, of conv format True 0] by blast
    have "buffer' ! j = (if p \<le> j \<and> j < p + len
                then trackSample conv format (mClips t) (start + int (j - p))
                else buffer ! j)" if j: "j < length buffer" for j
    proof -
      have F: "buffer' ! j =
               (if p \<le> j \<and> j < p + len
                then (case find (covers (start + int (j - p))) (mClips t) of
                        None \<Rightarrow> buffer ! j
                      | Some c \<Rightarrow> clipSample conv format c (start + int (j - p)))
                else buffer ! j)"
        using g(3) j by simp
      show ?thesis
      proof (cases "p \<le> j \<and> j < p + len")
        case True
        then have "covers (start + int (j - p)) c"
          using c(2,3) unfolding covers_def by linarith
        then obtain d where d: "find (covers (start + int (j - p))) (mClips t) = Some d"
          using find_covers_Some [OF c(1)] by blast
        show ?thesis
          unfolding F trackSample_def d using True by (simp only: if_True simp_thms option.case)
      next
        case False
        then show ?thesis
          unfolding F by (simp only: if_False simp_thms)
      qed
    qed
    then show ?thesis
      using False g(1,2) by (simp add: WaveTrack_Get_def)
  qed
qed

lemma find_covers_unique:
  "clips_disjoint cs \<Longrightarrow> c \<in> set cs \<Longrightarrow> covers pos c \<Longrightarrow> find (covers pos) cs = Some c"
proof (induction cs)
  case Nil
  then show ?case by simp
next
  case (Cons a cs)
  show ?case
  proof (cases "covers pos a")
    case True
    have "a = c"
    proof (rule ccontr)
      assume "a \<noteq> c"
      then have "c \<in> set cs"
        using Cons.prems(2) by auto
      then have "GetEndSample a \<le> GetStartSample c \<or> GetEndSample c \<le> GetStartSample a"
        using Cons.prems(1) by (auto simp: list_all_iff)
      then show False
        using True Cons.prems(3) unfolding covers_def by linarith
    qed
    then show ?thesis
      using True by simp
  next
    case False
    then have "c \<in> set cs"
      using Cons.prems(2,3) by auto
    then show ?thesis
      using False Cons.IH Cons.prems(1,3) by simp
  qed
qed

lemma find_covers_none: "(\<forall>c \<in> set cs. \<not> covers pos c) \<Longrightarrow> find (covers pos) cs = None"
  by (induction cs) auto

lemma blockData_short:
  "length d \<le> i \<Longrightarrow> i < n \<Longrightarrow> blockData conv format (Simple n ff (Some d)) ! i = 0"
  by (simp add: nth_append)


lemma clipSample_in_set:
  assumes "consistent (mSequence c)" and "covers pos c" and "clip_in_reach c"
  shows "clipSample conv format c pos \<in> set (seqData conv format (mSequence c))"
proof -
  have "int (length (seqData conv format (mSequence c))) = mNumSamples (mSequence c)"
    using assms(1) by (rule length_seqData)
  then have "nat (pos - GetStartSample c) < length (seqData conv format (mSequence c))"
    using assms(2) unfolding covers_def clip_in_reach_fields(1) [OF assms(3)] by linarith
  then show ?thesis
    unfolding clipSample_def by (rule nth_mem)
qed

lemma find_SomeD: "find P xs = Some x \<Longrightarrow> x \<in> set xs \<and> P x"
  by (induction xs) (auto split: if_splits)



lemma example_clip_start:
  "GetStartSample (example_clip 0 bs n) = 0" "GetStartSample (example_clip 1 bs n) = 4"
  by (simp_all add: GetStartSample_def example_clip_def sampleCount_of_def dbl_numeral dbl_numeral_half)

lemma example_clip_fields:
  "mSequence (example_clip off bs n)
   = \<lparr>mBlock = bs, mNumSamples = n, mSampleFormat = floatSample, mMinSamples = 131072,
      mMaxSamples = 262144\<rparr>"
  by (simp add: example_clip_def)

lemmas read_eval = WaveTrack_Get_def Get_doClear.simps Get_clips.simps example_clip_start GetEndSample_def
  GetNumSamples_def GetSamples_def Sequence_Get_def FindBlock_def Sequence_Get_from.simps
  Sequence_Read_def ReadData.simps CommonReadData_def ClearSamples_same poke_def GetLength_def
  Let_def example_clip_fields no_conversion_def wrap64_def

lemma gap_track_read: "WaveTrack_Get no_conversion gap_track [9,9,9,9,9,9,9] 0 floatSample 0 7 fillZero False
   = Inr ([1/2, -1/4, 0, 0, 3/4, 0, 0], False, 2)"
  by (simp add: read_eval gap_track_def replicate_num)

lemma gap_track_wellformed: "wellformed (mClips gap_track)"
  by (simp add: wellformed_def gap_track_def consistent_def GetLength_def example_clip_start
                example_clip_fields GetEndSample_def clip_in_reach_def in_reach_def wrap64_def)


subsection \<open>Appending to a sequence, a clip and a track\<close>

lemma chain_append: "chain as pos m \<Longrightarrow> chain bs m n \<Longrightarrow> chain (as @ bs) pos n"
  by (induction as arbitrary: pos) simp_all

lemma chain_snoc_split:
  "chain (as @ [b]) pos n \<Longrightarrow>
   chain as pos (sb_start b) \<and> 0 < GetLength (sb_f b) \<and> n = sb_start b + int (GetLength (sb_f b))"
  by (induction as arbitrary: pos) auto

lemma chain_butlast:
  assumes "chain bs pos n" and "bs \<noteq> []"
  shows "chain (butlast bs) pos (sb_start (last bs))"
    and "n = sb_start (last bs) + int (GetLength (sb_f (last bs)))"
    and "0 < GetLength (sb_f (last bs))"
proof -
  have "chain (butlast bs @ [last bs]) pos n"
    using assms by simp
  then have "chain (butlast bs) pos (sb_start (last bs)) \<and> 0 < GetLength (sb_f (last bs))
      \<and> n = sb_start (last bs) + int (GetLength (sb_f (last bs)))"
    by (rule chain_snoc_split)
  then show "chain (butlast bs) pos (sb_start (last bs))"
    and "n = sb_start (last bs) + int (GetLength (sb_f (last bs)))"
    and "0 < GetLength (sb_f (last bs))"
    by simp_all
qed

lemma chain_le: "chain bs pos n \<Longrightarrow> pos \<le> n"
  using chain_total [of bs pos n "\<lambda>a b x. x" floatSample] by simp

lemma ConsistencyCheck_loop_chain:
  "chain bs pos n \<Longrightarrow> list_all (\<lambda>b. GetLength (sb_f b) \<le> maxSamples) bs \<Longrightarrow>
   0 \<le> pos \<Longrightarrow> n < 9223372036854775808 \<Longrightarrow>
   ConsistencyCheck_loop bs maxSamples pos = (False, n)"
proof (induction bs arbitrary: pos)
  case Nil
  then show ?case by simp
next
  case (Cons b bs)
  have ch: "sb_start b = pos" "chain bs (pos + int (GetLength (sb_f b))) n"
    using Cons.prems(1) by simp_all
  have "pos + int (GetLength (sb_f b)) \<le> n"
    using ch(2) by (rule chain_le)
  then have w: "wrap64 (pos + int (GetLength (sb_f b))) = pos + int (GetLength (sb_f b))"
    using Cons.prems(3,4) by (intro wrap64_id) linarith+
  have "ConsistencyCheck_loop bs maxSamples (pos + int (GetLength (sb_f b))) = (False, n)"
    using ch(2) Cons.prems(2,3,4) by (intro Cons.IH) simp_all
  then show ?case
    using ch(1) Cons.prems(2) by (simp add: w)
qed

lemma AppendBlocksIfConsistent_ok:
  assumes "kept = (if replaceLast \<and> mBlock s \<noteq> [] then butlast (mBlock s) else mBlock s)"
    and "chain kept 0 m" and "chain add m n" and "add \<noteq> []"
    and "list_all (\<lambda>b. GetLength (sb_f b) \<le> mMaxSamples s) add"
    and n63: "n < 9223372036854775808"
  shows "AppendBlocksIfConsistent s add replaceLast n = Inr (s\<lparr>mBlock := kept @ add, mNumSamples := n\<rparr>)"
proof -
  obtain a rest where add: "add = a # rest"
    using assms(4) by (cases add) auto
  have sa: "sb_start a = m"
    using assms(3) add by simp
  have nth: "(kept @ add) ! length kept = a"
    using add by simp
  have m0: "length kept = 0 \<Longrightarrow> m = 0"
    using assms(2) by simp
  have "0 \<le> m"
    using assms(2) by (rule chain_le)
  with assms(3,5) have loop: "ConsistencyCheck_loop add (mMaxSamples s) m = (False, n)"
    using n63 by (rule ConsistencyCheck_loop_chain)
  have "\<not> ConsistencyCheck (kept @ add) (mMaxSamples s) (length kept) n"
    unfolding ConsistencyCheck_def Let_def
    using nth sa m0 loop add by auto
  then show ?thesis
    unfolding AppendBlocksIfConsistent_def Let_def assms(1) [symmetric]
    using assms(4) by simp
qed

lemma Append_new_blocks_ok:
  assumes "0 < mMaxSamples s" and "len \<le> length buffer"
    and "\<And>x. conv (mSampleFormat s) (mSampleFormat s) x = x"
    and "0 \<le> newNum" and "newNum + int len < 9223372036854775808"
  shows "\<exists>NB. Append_new_blocks conv True s buffer (mSampleFormat s) len buffer2 newBlock newNum
                 = Some (Inr (newBlock @ NB, newNum + int len))
           \<and> chain NB newNum (newNum + int len)
           \<and> list_all (\<lambda>b. GetLength (sb_f b) \<le> mMaxSamples s) NB
           \<and> blocksData conv (mSampleFormat s) NB = take len buffer
           \<and> blocksComplete NB
           \<and> list_all (\<lambda>b. blockInFormat (mSampleFormat s) (sb_f b)) NB
           \<and> (0 < len \<longrightarrow> NB \<noteq> [])"
  using assms(2,4,5)
proof (induction len arbitrary: buffer newBlock newNum rule: less_induct)
  case (less len)
  show ?case
  proof (cases "len = 0")
    case True
    then show ?thesis
      by (subst Append_new_blocks.simps) (simp add: blocksData_def blocksComplete_def)
  next
    case False
    define addedLen where "addedLen = min (mMaxSamples s) len"
    have al: "0 < addedLen" "addedLen \<le> len" "addedLen \<le> mMaxSamples s"
      using False assms(1) unfolding addedLen_def by simp_all
    define X where "X = take addedLen buffer"
    have lX: "length X = addedLen"
      unfolding X_def using al(2) less.prems(1) by simp
    define blk where "blk = \<lparr>sb_f = Simple addedLen (mSampleFormat s) (Some X), sb_start = newNum\<rparr>"
    have w: "wrap64 (newNum + int addedLen) = newNum + int addedLen"
      using less.prems(2,3) al(2) by (intro wrap64_id) linarith+
    have step: "Append_new_blocks conv True s buffer (mSampleFormat s) len buffer2 newBlock newNum
        = Append_new_blocks conv True s (drop addedLen buffer) (mSampleFormat s) (len - addedLen) buffer2
            (newBlock @ [blk]) (newNum + int addedLen)"
      apply (subst Append_new_blocks.simps)
      using False
      by (simp add: Let_def GetIdealBlockSize_def addedLen_def [symmetric] NewSimpleBlockFile_def
                    X_def [symmetric] blk_def w)
    have lt: "len - addedLen < len"
      using al False by linarith
    have pre: "len - addedLen \<le> length (drop addedLen buffer)"
      using less.prems(1) by simp
    have pre2: "0 \<le> newNum + int addedLen"
      "newNum + int addedLen + int (len - addedLen) < 9223372036854775808"
      using less.prems(2,3) al(2) by linarith+
    obtain NB where ih:
      "Append_new_blocks conv True s (drop addedLen buffer) (mSampleFormat s) (len - addedLen) buffer2
            (newBlock @ [blk]) (newNum + int addedLen)
        = Some (Inr ((newBlock @ [blk]) @ NB, newNum + int addedLen + int (len - addedLen)))"
      "chain NB (newNum + int addedLen) (newNum + int addedLen + int (len - addedLen))"
      "list_all (\<lambda>b. GetLength (sb_f b) \<le> mMaxSamples s) NB"
      "blocksData conv (mSampleFormat s) NB = take (len - addedLen) (drop addedLen buffer)"
      "blocksComplete NB"
      "list_all (\<lambda>b. blockInFormat (mSampleFormat s) (sb_f b)) NB"
      using less.IH [OF lt pre pre2, of "newBlock @ [blk]"] by blast
    have tot: "newNum + int addedLen + int (len - addedLen) = newNum + int len"
      using al(2) by linarith
    have "map (conv (mSampleFormat s) (mSampleFormat s)) X = X"
      using assms(3) by (intro map_idI) simp
    then have bd: "blockData conv (mSampleFormat s) (sb_f blk) = X"
      unfolding blk_def using lX by simp
    have data: "blocksData conv (mSampleFormat s) (blk # NB) = take len buffer"
    proof -
      have "take len buffer = take (addedLen + (len - addedLen)) buffer"
        using al(2) by simp
      also have "\<dots> = X @ take (len - addedLen) (drop addedLen buffer)"
        unfolding X_def by (rule take_add)
      finally show ?thesis
        unfolding blocksData_Cons bd ih(4) by simp
    qed
    have "Append_new_blocks conv True s buffer (mSampleFormat s) len buffer2 newBlock newNum
            = Some (Inr (newBlock @ (blk # NB), newNum + int len))"
      unfolding step ih(1) tot by simp
    moreover have "chain (blk # NB) newNum (newNum + int len)"
      using ih(2) al(1) unfolding tot by (simp add: blk_def GetLength_def)
    moreover have "list_all (\<lambda>b. GetLength (sb_f b) \<le> mMaxSamples s) (blk # NB)"
      using ih(3) al(3) by (simp add: blk_def GetLength_def)
    moreover note data
    moreover have "blocksComplete (blk # NB)"
      using ih(5) lX by (simp add: blocksComplete_def blk_def)
    moreover have "list_all (\<lambda>b. blockInFormat (mSampleFormat s) (sb_f b)) (blk # NB)"
      using ih(6) by (simp add: blk_def)
    ultimately show ?thesis
      by blast
  qed
qed

lemma blocksData_butlast_last:
  "bs \<noteq> [] \<Longrightarrow> blocksData conv format bs
     = blocksData conv format (butlast bs) @ blockData conv format (sb_f (last bs))"
  using blocksData_append [of conv format "butlast bs" "[last bs]"]
  by (simp add: blocksData_Cons blocksData_Nil)

lemma seq_ok_fields:
  assumes "seq_ok s"
  shows "chain (mBlock s) 0 (mNumSamples s)" and "blocksComplete (mBlock s)"
    and "list_all (\<lambda>b. blockInFormat (mSampleFormat s) (sb_f b)) (mBlock s)"
    and "0 < mMaxSamples s" and "mMinSamples s \<le> mMaxSamples s"
  using assms by (simp_all add: seq_ok_def consistent_def seqComplete_def)

lemma seq_ok_extend:
  assumes "seq_ok s"
    and "kept = mBlock s \<or> (mBlock s \<noteq> [] \<and> kept = butlast (mBlock s))"
    and "chain kept 0 m" and "chain add m n"
    and "blocksComplete add" and "list_all (\<lambda>b. blockInFormat (mSampleFormat s) (sb_f b)) add"
  shows "seq_ok (s\<lparr>mBlock := kept @ add, mNumSamples := n\<rparr>)"
proof -
  note f = seq_ok_fields [OF assms(1)]
  have "set kept \<subseteq> set (mBlock s)"
    using assms(2) by (auto dest: in_set_butlastD)
  then have k: "blocksComplete kept" "list_all (\<lambda>b. blockInFormat (mSampleFormat s) (sb_f b)) kept"
    using f(2,3) by (auto simp: blocksComplete_def list_all_iff)
  have "chain (kept @ add) 0 n"
    using assms(3,4) by (rule chain_append)
  then show ?thesis
    using k assms(5,6) f(4,5)
    by (simp add: seq_ok_def consistent_def seqComplete_def blocksComplete_def)
qed

lemma Sequence_Append_ok:
  assumes ok: "seq_ok s" and len: "len \<le> length buffer"
    and cid: "\<And>x. conv (mSampleFormat s) (mSampleFormat s) x = x"
    and nov: "mNumSamples s + int len \<le> 9223372036854775807"
  shows "\<exists>s'. Sequence_Append conv True s buffer (mSampleFormat s) len = Some (Inr s')
           \<and> seq_ok s'
           \<and> seqData conv (mSampleFormat s) s' = seqData conv (mSampleFormat s) s @ take len buffer
           \<and> mNumSamples s' = mNumSamples s + int len
           \<and> mSampleFormat s' = mSampleFormat s
           \<and> mMinSamples s' = mMinSamples s \<and> mMaxSamples s' = mMaxSamples s"
proof (cases "len = 0")
  case True
  then show ?thesis
    using ok by (simp add: Sequence_Append_def)
next
  case False
  note f = seq_ok_fields [OF ok]
  let ?fmt = "mSampleFormat s"
  have n0: "0 \<le> mNumSamples s"
    using f(1) by (rule chain_le)
  have novf: "\<not> Overflows (dbl (as_double (mNumSamples s) + dbl (real len)))"
    using n0 nov by (rule not_Overflows)
  have n63: "mNumSamples s + int len < 9223372036854775808"
    using nov by linarith
  show ?thesis
  proof (cases "mBlock s \<noteq> [] \<and> GetLength (sb_f (last (mBlock s))) < mMinSamples s")
    case nol: False
    obtain NB where nb:
      "Append_new_blocks conv True s buffer ?fmt len (replicate (mMaxSamples s) 0) [] (mNumSamples s)
         = Some (Inr ([] @ NB, mNumSamples s + int len))"
      "chain NB (mNumSamples s) (mNumSamples s + int len)"
      "list_all (\<lambda>b. GetLength (sb_f b) \<le> mMaxSamples s) NB"
      "blocksData conv ?fmt NB = take len buffer"
      "blocksComplete NB"
      "list_all (\<lambda>b. blockInFormat ?fmt (sb_f b)) NB"
      "0 < len \<longrightarrow> NB \<noteq> []"
      using Append_new_blocks_ok [where s = s and len = len and buffer = buffer and conv = conv
          and ?buffer2.0 = "replicate (mMaxSamples s) 0" and newBlock = "[]"
          and newNum = "mNumSamples s"] f(4) len cid n0 n63
      by blast
    have ne: "NB \<noteq> []"
      using nb(7) False by simp
    have kept: "mBlock s = (if False \<and> mBlock s \<noteq> [] then butlast (mBlock s) else mBlock s)"
      by simp
    have ab: "AppendBlocksIfConsistent s NB False (mNumSamples s + int len)
              = Inr (s\<lparr>mBlock := mBlock s @ NB, mNumSamples := mNumSamples s + int len\<rparr>)"
      using kept f(1) nb(2) ne nb(3) n63 by (rule AppendBlocksIfConsistent_ok)
    have res: "Sequence_Append conv True s buffer ?fmt len
               = Some (Inr (s\<lparr>mBlock := mBlock s @ NB, mNumSamples := mNumSamples s + int len\<rparr>))"
      unfolding Sequence_Append_def Let_def using False novf nol nb(1) ab by auto
    have "seq_ok (s\<lparr>mBlock := mBlock s @ NB, mNumSamples := mNumSamples s + int len\<rparr>)"
      using ok _ f(1) nb(2,5,6) by (rule seq_ok_extend) simp
    moreover have "seqData conv ?fmt (s\<lparr>mBlock := mBlock s @ NB, mNumSamples := mNumSamples s + int len\<rparr>)
                   = seqData conv ?fmt s @ take len buffer"
      by (simp add: seqData_def blocksData_append nb(4))
    ultimately show ?thesis
      unfolding res by simp
  next
    case enl: True
    define lb where "lb = last (mBlock s)"
    define L where "L = GetLength (sb_f lb)"
    define addLen where "addLen = min (mMaxSamples s - L) len"
    define BD where "BD = blockData conv ?fmt (sb_f lb)"
    define X where "X = take addLen buffer"
    define buffer2 where "buffer2 = replicate (mMaxSamples s) (0::real)"
    have ne0: "mBlock s \<noteq> []" and Lmin: "L < mMinSamples s"
      using enl unfolding L_def lb_def by simp_all
    note bl = chain_butlast [OF f(1) ne0, folded lb_def L_def]
    have Lmax: "L \<le> mMaxSamples s"
      using Lmin f(5) by linarith
    have al: "addLen \<le> len" "L + addLen \<le> mMaxSamples s"
      unfolding addLen_def using Lmax by linarith+
    have lBD: "length BD = L"
      unfolding BD_def L_def by (rule length_blockData)
    have lX: "length X = addLen"
      unfolding X_def using al(1) len by simp
    have lbc: "blockComplete (sb_f lb)"
      using f(2) ne0 unfolding lb_def blocksComplete_def by (simp add: list_all_iff)
    have lb2: "length buffer2 = mMaxSamples s"
      by (simp add: buffer2_def)
    obtain r where rd0: "ReadData conv (sb_f lb) buffer2 0 ?fmt 0 L True
                        = Inr (poke buffer2 0 (take L (drop 0 BD)), r)"
      using ReadData_data [of 0 L "sb_f lb" True 0 buffer2 conv ?fmt] lbc
      unfolding BD_def L_def by auto
    have rd: "Sequence_Read conv buffer2 0 ?fmt lb 0 L True = Inr (poke buffer2 0 BD, r = L)"
      unfolding Sequence_Read_def using rd0 lBD by (simp add: L_def)
    define buffer2a where "buffer2a = poke buffer2 0 BD"
    have b2a: "buffer2a = BD @ drop L buffer2"
      unfolding buffer2a_def poke_def using lBD by simp
    have mX: "map (conv ?fmt ?fmt) X = X"
      using cid by (intro map_idI) simp
    define buffer2b where "buffer2b = CopySamples conv buffer ?fmt buffer2a L ?fmt addLen"
    have b2b: "take (L + addLen) buffer2b = BD @ X"
    proof -
      have "buffer2b = take L buffer2a @ X @ drop (L + addLen) buffer2a"
        unfolding buffer2b_def CopySamples_def poke_def X_def [symmetric] mX lX ..
      also have "take L buffer2a = BD"
        unfolding b2a using lBD by simp
      finally show ?thesis
        using lBD lX by simp
    qed
    define nl where "nl = \<lparr>sb_f = Simple (L + addLen) ?fmt (Some (BD @ X)), sb_start = sb_start lb\<rparr>"
    have nlb: "NewSimpleBlockFile True buffer2b (L + addLen) ?fmt = Inr (sb_f nl)"
      "\<lparr>sb_f = sb_f nl, sb_start = sb_start lb\<rparr> = nl"
      unfolding nl_def NewSimpleBlockFile_def b2b by simp_all
    have wa: "wrap64 (mNumSamples s + int addLen) = mNumSamples s + int addLen"
      using n0 n63 al(1) by (intro wrap64_id) linarith+
    have len': "len - addLen \<le> length (drop addLen buffer)"
      using len by simp
    have pre2: "0 \<le> mNumSamples s + int addLen"
      "mNumSamples s + int addLen + int (len - addLen) < 9223372036854775808"
      using n0 n63 al(1) by linarith+
    obtain NB where nb:
      "Append_new_blocks conv True s (drop addLen buffer) ?fmt (len - addLen) buffer2b [nl]
           (mNumSamples s + int addLen)
         = Some (Inr ([nl] @ NB, mNumSamples s + int addLen + int (len - addLen)))"
      "chain NB (mNumSamples s + int addLen) (mNumSamples s + int addLen + int (len - addLen))"
      "list_all (\<lambda>b. GetLength (sb_f b) \<le> mMaxSamples s) NB"
      "blocksData conv ?fmt NB = take (len - addLen) (drop addLen buffer)"
      "blocksComplete NB"
      "list_all (\<lambda>b. blockInFormat ?fmt (sb_f b)) NB"
      using Append_new_blocks_ok [where s = s and len = "len - addLen" and buffer = "drop addLen buffer"
          and conv = conv and ?buffer2.0 = buffer2b and newBlock = "[nl]"
          and newNum = "mNumSamples s + int addLen"] f(4) len' cid pre2
      by blast
    have tot: "mNumSamples s + int addLen + int (len - addLen) = mNumSamples s + int len"
      using al(1) by linarith
    have chn: "chain (nl # NB) (sb_start lb) (mNumSamples s + int len)"
      using nb(2) bl(2,3) unfolding tot nl_def by (simp add: GetLength_def add.assoc)
    have lens: "list_all (\<lambda>b. GetLength (sb_f b) \<le> mMaxSamples s) (nl # NB)"
      using nb(3) al(2) by (simp add: nl_def GetLength_def)
    have kept: "butlast (mBlock s) = (if True \<and> mBlock s \<noteq> [] then butlast (mBlock s) else mBlock s)"
      using ne0 by simp
    have ab: "AppendBlocksIfConsistent s (nl # NB) True (mNumSamples s + int len)
              = Inr (s\<lparr>mBlock := butlast (mBlock s) @ (nl # NB), mNumSamples := mNumSamples s + int len\<rparr>)"
      using kept bl(1) chn _ lens n63 by (rule AppendBlocksIfConsistent_ok) simp
    have res: "Sequence_Append conv True s buffer ?fmt len
               = Some (Inr (s\<lparr>mBlock := butlast (mBlock s) @ (nl # NB),
                               mNumSamples := mNumSamples s + int len\<rparr>))"
      unfolding Sequence_Append_def Let_def lb_def [symmetric] L_def [symmetric]
        addLen_def [symmetric] buffer2_def [symmetric]
      using False novf enl rd nb(1) ab
      by (simp add: lb_def [symmetric] L_def [symmetric] buffer2a_def [symmetric]
                    buffer2b_def [symmetric] nlb wa tot)
    have bdn: "blockData conv ?fmt (sb_f nl) = BD @ X"
    proof -
      have "map (conv ?fmt ?fmt) (BD @ X) = BD @ X"
        using cid by (intro map_idI) simp
      then show ?thesis
        unfolding nl_def using lBD lX by simp
    qed
    have "seq_ok (s\<lparr>mBlock := butlast (mBlock s) @ (nl # NB), mNumSamples := mNumSamples s + int len\<rparr>)"
    proof (rule seq_ok_extend [OF ok _ bl(1) chn])
      show "butlast (mBlock s) = mBlock s \<or> mBlock s \<noteq> [] \<and> butlast (mBlock s) = butlast (mBlock s)"
        using ne0 by simp
      show "blocksComplete (nl # NB)"
        using nb(5) lBD lX by (simp add: blocksComplete_def nl_def)
      show "list_all (\<lambda>b. blockInFormat ?fmt (sb_f b)) (nl # NB)"
        using nb(6) by (simp add: nl_def)
    qed
    moreover have "seqData conv ?fmt (s\<lparr>mBlock := butlast (mBlock s) @ (nl # NB),
                       mNumSamples := mNumSamples s + int len\<rparr>)
                   = seqData conv ?fmt s @ take len buffer"
    proof -
      have "take len buffer = take (addLen + (len - addLen)) buffer"
        using al(1) by simp
      also have "\<dots> = X @ take (len - addLen) (drop addLen buffer)"
        unfolding X_def by (rule take_add)
      finally have t: "take len buffer = X @ take (len - addLen) (drop addLen buffer)" .
      have "seqData conv ?fmt s = blocksData conv ?fmt (butlast (mBlock s)) @ BD"
        unfolding seqData_def BD_def lb_def using ne0 by (rule blocksData_butlast_last)
      then show ?thesis
        unfolding t by (simp add: seqData_def blocksData_append blocksData_Cons bdn nb(4))
    qed
    ultimately show ?thesis
      unfolding res by simp
  qed
qed

lemma GetIdealAppendLen_range:
  "seq_ok s \<Longrightarrow> 0 < GetIdealAppendLen s \<and> GetIdealAppendLen s \<le> mMaxSamples s"
  by (auto simp: GetIdealAppendLen_def GetMaxBlockSize_def Let_def seq_ok_def)

lemma take_poke_front: "length Z \<le> length ab \<Longrightarrow> take (length Z) (poke ab 0 Z) = Z"
  by (simp add: poke_def)

lemma length_poke_front: "length Z \<le> length ab \<Longrightarrow> length (poke ab 0 Z) = length ab"
  by (simp add: poke_def)

lemma take_poke_end:
  "k + length Y \<le> length ab \<Longrightarrow> take (k + length Y) (poke ab k Y) = take k ab @ Y"
  by (simp add: poke_def)

lemma Append_flush_ok:
  assumes ok: "seq_ok (mSequence c)"
    and fmt: "fmt = mSampleFormat (mSequence c)" and mx: "mx = mMaxSamples (mSequence c)"
    and cid: "\<And>x. conv fmt fmt x = x"
    and ab: "length (mAppendBuffer c) = mx" "mAppendBufferLen c \<le> mx"
    and bs: "blockSize = GetIdealAppendLen (mSequence c)"
    and nov: "mNumSamples (mSequence c) + int (mAppendBufferLen c) \<le> 9223372036854775807"
  shows "\<exists>c1 bs1. Append_flush conv True fmt c blockSize = Some (Inr (c1, bs1))
     \<and> seq_ok (mSequence c1) \<and> mSampleFormat (mSequence c1) = fmt \<and> mMaxSamples (mSequence c1) = mx
     \<and> length (mAppendBuffer c1) = mx \<and> mAppendBufferLen c1 < mx
     \<and> bs1 = GetIdealAppendLen (mSequence c1)
     \<and> seqData conv fmt (mSequence c1) @ pending c1 = seqData conv fmt (mSequence c) @ pending c
     \<and> mNumSamples (mSequence c1) + int (mAppendBufferLen c1)
         = mNumSamples (mSequence c) + int (mAppendBufferLen c)
     \<and> WaveClip.mOffset c1 = WaveClip.mOffset c \<and> WaveClip.mRate c1 = WaveClip.mRate c
     \<and> mEnvelope c1 = mEnvelope c"
proof -
  have rng: "0 < blockSize" "blockSize \<le> mx"
    using GetIdealAppendLen_range [OF ok] bs mx by simp_all
  show ?thesis
  proof (cases "mAppendBufferLen c \<ge> blockSize")
    case False
    then show ?thesis
      using ok fmt mx ab bs rng by (simp add: Append_flush_def)
  next
    case True
    define abuf where "abuf = mAppendBuffer c"
    define abl where "abl = mAppendBufferLen c"
    have l1: "blockSize \<le> length abuf"
      using True ab unfolding abuf_def by linarith
    have cid': "\<And>x. conv (mSampleFormat (mSequence c)) (mSampleFormat (mSequence c)) x = x"
      using cid fmt by simp
    have nov': "mNumSamples (mSequence c) + int blockSize \<le> 9223372036854775807"
      using nov True by linarith
    obtain s' where s': "Sequence_Append conv True (mSequence c) abuf (mSampleFormat (mSequence c)) blockSize
                          = Some (Inr s')"
      "seq_ok s'"
      "seqData conv (mSampleFormat (mSequence c)) s'
         = seqData conv (mSampleFormat (mSequence c)) (mSequence c) @ take blockSize abuf"
      "mNumSamples s' = mNumSamples (mSequence c) + int blockSize"
      "mSampleFormat s' = mSampleFormat (mSequence c)"
      "mMaxSamples s' = mMaxSamples (mSequence c)"
      using Sequence_Append_ok [where s = "mSequence c" and len = blockSize and buffer = abuf
          and conv = conv] ok l1 cid' nov'
      by blast
    define Z where "Z = take (abl - blockSize) (drop blockSize abuf)"
    have lZ: "length Z = abl - blockSize"
      unfolding Z_def abl_def abuf_def using ab by simp
    have lZ': "length Z \<le> length abuf"
      unfolding lZ abl_def abuf_def using ab by linarith
    define c1 where "c1 = c\<lparr>mSequence := s', mAppendBuffer := poke abuf 0 Z,
                            mAppendBufferLen := abl - blockSize\<rparr>"
    have res: "Append_flush conv True fmt c blockSize = Some (Inr (c1, GetIdealAppendLen s'))"
      unfolding Append_flush_def using True s'(1) fmt
      by (simp add: abuf_def [symmetric] abl_def [symmetric] Z_def [symmetric] c1_def)
    have p1: "pending c1 = Z"
      unfolding pending_def c1_def using take_poke_front [OF lZ'] lZ by simp
    have "take abl abuf = take (blockSize + (abl - blockSize)) abuf"
      using True unfolding abl_def by simp
    also have "\<dots> = take blockSize abuf @ Z"
      unfolding Z_def by (rule take_add)
    finally have p0: "pending c = take blockSize abuf @ Z"
      unfolding pending_def abl_def abuf_def .
    have "seqData conv fmt (mSequence c1) @ pending c1 = seqData conv fmt (mSequence c) @ pending c"
      unfolding p1 p0 using s'(3) fmt by (simp add: c1_def)
    moreover have "mNumSamples (mSequence c1) + int (mAppendBufferLen c1)
         = mNumSamples (mSequence c) + int (mAppendBufferLen c)"
      using s'(4) True by (simp add: c1_def abl_def)
    moreover have "length (mAppendBuffer c1) = mx"
      using length_poke_front [OF lZ'] ab(1) by (simp add: c1_def abuf_def)
    moreover have "mAppendBufferLen c1 < mx"
      using rng ab(2) True by (simp add: c1_def abl_def)
    ultimately show ?thesis
      unfolding res using s'(2,5,6) fmt mx by (simp add: c1_def)
  qed
qed

lemma Append_loop_ok:
  assumes "seq_ok (mSequence c)"
    and "fmt = mSampleFormat (mSequence c)" and "mx = mMaxSamples (mSequence c)"
    and cid: "\<And>x. conv fmt fmt x = x"
    and "length (mAppendBuffer c) = mx" and "mAppendBufferLen c \<le> mx"
    and "len \<le> length buffer"
    and "blockSize = GetIdealAppendLen (mSequence c)"
    and "mNumSamples (mSequence c) + int (mAppendBufferLen c) + int len \<le> 9223372036854775807"
  shows "\<exists>c'. Append_loop conv True mx fmt c buffer format len blockSize = Some (Inr c')
     \<and> seq_ok (mSequence c') \<and> mSampleFormat (mSequence c') = fmt \<and> mMaxSamples (mSequence c') = mx
     \<and> length (mAppendBuffer c') = mx \<and> mAppendBufferLen c' \<le> mx
     \<and> seqData conv fmt (mSequence c') @ pending c'
         = seqData conv fmt (mSequence c) @ pending c @ map (conv format fmt) (take len buffer)
     \<and> mNumSamples (mSequence c') + int (mAppendBufferLen c')
         = mNumSamples (mSequence c) + int (mAppendBufferLen c) + int len
     \<and> WaveClip.mOffset c' = WaveClip.mOffset c \<and> WaveClip.mRate c' = WaveClip.mRate c
     \<and> mEnvelope c' = mEnvelope c"
  using assms(1-3,5-)
proof (induction len arbitrary: c buffer blockSize rule: less_induct)
  case (less len)
  have nov0: "mNumSamples (mSequence c) + int (mAppendBufferLen c) \<le> 9223372036854775807"
    using less.prems(8) by linarith
  obtain c1 bs1 where f:
    "Append_flush conv True fmt c blockSize = Some (Inr (c1, bs1))"
    "seq_ok (mSequence c1)" "mSampleFormat (mSequence c1) = fmt" "mMaxSamples (mSequence c1) = mx"
    "length (mAppendBuffer c1) = mx" "mAppendBufferLen c1 < mx"
    "bs1 = GetIdealAppendLen (mSequence c1)"
    "seqData conv fmt (mSequence c1) @ pending c1 = seqData conv fmt (mSequence c) @ pending c"
    "mNumSamples (mSequence c1) + int (mAppendBufferLen c1)
         = mNumSamples (mSequence c) + int (mAppendBufferLen c)"
    "WaveClip.mOffset c1 = WaveClip.mOffset c" "WaveClip.mRate c1 = WaveClip.mRate c"
    "mEnvelope c1 = mEnvelope c"
    using Append_flush_ok [where c = c and fmt = fmt and mx = mx and conv = conv
        and blockSize = blockSize] less.prems(1,2,3) cid less.prems(4,5,7) nov0
    by blast
  show ?case
  proof (cases "len = 0")
    case True
    have "Append_loop conv True mx fmt c buffer format len blockSize = Some (Inr c1)"
      by (subst Append_loop.simps) (simp add: f(1) True)
    then show ?thesis
      using f True by simp
  next
    case False
    define toCopy where "toCopy = min len (mx - mAppendBufferLen c1)"
    have tc: "0 < toCopy" "toCopy \<le> len" "mAppendBufferLen c1 + toCopy \<le> mx"
      using False f(6) unfolding toCopy_def by linarith+
    define Y where "Y = map (conv format fmt) (take toCopy buffer)"
    have lY: "length Y = toCopy"
      unfolding Y_def using tc(2) less.prems(6) by simp
    define c2 where "c2 = c1\<lparr>mAppendBuffer := poke (mAppendBuffer c1) (mAppendBufferLen c1) Y,
                              mAppendBufferLen := mAppendBufferLen c1 + toCopy\<rparr>"
    have step: "Append_loop conv True mx fmt c buffer format len blockSize
                = Append_loop conv True mx fmt c2 (drop toCopy buffer) format (len - toCopy) bs1"
      apply (subst Append_loop.simps)
      using False f(6)
      by (simp add: f(1) Let_def toCopy_def [symmetric] CopySamples_def Y_def [symmetric] c2_def)
    have lt: "len - toCopy < len"
      using tc False by linarith
    have seq2: "mSequence c2 = mSequence c1"
      by (simp add: c2_def)
    have p2: "pending c2 = pending c1 @ Y"
    proof -
      have "mAppendBufferLen c1 + length Y \<le> length (mAppendBuffer c1)"
        using tc(3) lY f(5) by simp
      then have "take (mAppendBufferLen c1 + length Y) (poke (mAppendBuffer c1) (mAppendBufferLen c1) Y)
                 = take (mAppendBufferLen c1) (mAppendBuffer c1) @ Y"
        by (rule take_poke_end)
      then show ?thesis
        unfolding pending_def c2_def using lY by simp
    qed
    have l2: "length (mAppendBuffer c2) = mx"
      unfolding c2_def using tc(3) lY f(5) by (simp add: length_poke)
    have a2: "mAppendBufferLen c2 \<le> mx"
      unfolding c2_def using tc(3) by simp
    have len2: "len - toCopy \<le> length (drop toCopy buffer)"
      using less.prems(6) by simp
    have nov2: "mNumSamples (mSequence c2) + int (mAppendBufferLen c2) + int (len - toCopy)
                \<le> 9223372036854775807"
      unfolding seq2 using f(9) less.prems(8) tc(2) by (simp add: c2_def)
    obtain c' where ih:
      "Append_loop conv True mx fmt c2 (drop toCopy buffer) format (len - toCopy) bs1 = Some (Inr c')"
      "seq_ok (mSequence c')" "mSampleFormat (mSequence c') = fmt" "mMaxSamples (mSequence c') = mx"
      "length (mAppendBuffer c') = mx" "mAppendBufferLen c' \<le> mx"
      "seqData conv fmt (mSequence c') @ pending c'
         = seqData conv fmt (mSequence c2) @ pending c2
           @ map (conv format fmt) (take (len - toCopy) (drop toCopy buffer))"
      "mNumSamples (mSequence c') + int (mAppendBufferLen c')
         = mNumSamples (mSequence c2) + int (mAppendBufferLen c2) + int (len - toCopy)"
      "WaveClip.mOffset c' = WaveClip.mOffset c2" "WaveClip.mRate c' = WaveClip.mRate c2"
      "mEnvelope c' = mEnvelope c2"
      using less.IH [OF lt, of c2 "drop toCopy buffer" bs1] f(2,3,4,7) l2 a2 len2 nov2
      unfolding seq2 by auto
    have "take len buffer = take (toCopy + (len - toCopy)) buffer"
      using tc(2) by simp
    also have "\<dots> = take toCopy buffer @ take (len - toCopy) (drop toCopy buffer)"
      by (rule take_add)
    finally have "map (conv format fmt) (take len buffer)
                  = Y @ map (conv format fmt) (take (len - toCopy) (drop toCopy buffer))"
      unfolding Y_def by simp
    then have data: "seqData conv fmt (mSequence c') @ pending c'
         = seqData conv fmt (mSequence c) @ pending c @ map (conv format fmt) (take len buffer)"
      unfolding ih(7) seq2 p2 using f(8) by simp
    have cnt: "mNumSamples (mSequence c') + int (mAppendBufferLen c')
         = mNumSamples (mSequence c) + int (mAppendBufferLen c) + int len"
      unfolding ih(8) seq2 using f(9) tc(2) by (simp add: c2_def)
    show ?thesis
      unfolding step using ih(1-6,9-11) data cnt f(10-12) by (simp add: c2_def)
  qed
qed

lemma clip_ok_pending_length: "clip_ok c \<Longrightarrow> length (pending c) = mAppendBufferLen c"
  by (auto simp: clip_ok_def pending_def)

lemma WaveClip_Append_Flush_ok:
  assumes ok: "clip_ok c"
    and fmt: "fmt = mSampleFormat (mSequence c)"
    and cid: "\<And>x. conv fmt fmt x = x"
    and len: "len \<le> length buffer"
    and nov: "mNumSamples (mSequence c) + int (mAppendBufferLen c) + int len \<le> 9223372036854775807"
  shows "\<exists>c1 c2. WaveClip_Append conv True stl c buffer format len = Some (Inr c1)
     \<and> WaveClip_Flush conv True stl c1 = Some (Inr c2)
     \<and> clip_ok c2 \<and> mAppendBufferLen c2 = 0
     \<and> mSampleFormat (mSequence c2) = fmt
     \<and> seqData conv fmt (mSequence c2)
         = seqData conv fmt (mSequence c) @ pending c @ map (conv format fmt) (take len buffer)
     \<and> mNumSamples (mSequence c2)
         = mNumSamples (mSequence c) + int (mAppendBufferLen c) + int len
     \<and> WaveClip.mOffset c2 = WaveClip.mOffset c"
proof -
  define mx where "mx = mMaxSamples (mSequence c)"
  define c0 where "c0 = (if mAppendBuffer c = [] then c\<lparr>mAppendBuffer := replicate mx 0\<rparr> else c)"
  have sok: "seq_ok (mSequence c)"
    using ok by (simp add: clip_ok_def)
  have mxp: "0 < mx"
    using sok by (simp add: seq_ok_def mx_def)
  have c0: "mSequence c0 = mSequence c" "mAppendBufferLen c0 = mAppendBufferLen c"
    "WaveClip.mOffset c0 = WaveClip.mOffset c" "WaveClip.mRate c0 = WaveClip.mRate c"
    by (simp_all add: c0_def)
  have l0: "length (mAppendBuffer c0) = mx" "mAppendBufferLen c0 \<le> mx"
    using ok mxp by (auto simp: clip_ok_def c0_def mx_def)
  have p0: "pending c0 = pending c"
    using ok mxp by (auto simp: clip_ok_def c0_def mx_def pending_def)
  obtain c' where a:
    "Append_loop conv True mx fmt c0 buffer format len (GetIdealAppendLen (mSequence c0)) = Some (Inr c')"
    "seq_ok (mSequence c')" "mSampleFormat (mSequence c') = fmt" "mMaxSamples (mSequence c') = mx"
    "length (mAppendBuffer c') = mx" "mAppendBufferLen c' \<le> mx"
    "seqData conv fmt (mSequence c') @ pending c'
         = seqData conv fmt (mSequence c0) @ pending c0 @ map (conv format fmt) (take len buffer)"
    "mNumSamples (mSequence c') + int (mAppendBufferLen c')
         = mNumSamples (mSequence c0) + int (mAppendBufferLen c0) + int len"
    "WaveClip.mOffset c' = WaveClip.mOffset c0"
    using Append_loop_ok [where c = c0 and fmt = fmt and mx = mx and conv = conv and len = len
        and buffer = buffer and blockSize = "GetIdealAppendLen (mSequence c0)" and format = format]
      sok fmt cid l0 len nov unfolding c0 mx_def [symmetric]
    by blast
  define c1 where "c1 = UpdateEnvelopeTrackLen stl c'"
  have app: "WaveClip_Append conv True stl c buffer format len = Some (Inr c1)"
    unfolding WaveClip_Append_def Let_def GetMaxBlockSize_def mx_def [symmetric] fmt [symmetric]
      c0_def [symmetric]
    using a(1) unfolding c0 by (simp add: c1_def)
  have c1: "mSequence c1 = mSequence c'" "mAppendBuffer c1 = mAppendBuffer c'"
    "mAppendBufferLen c1 = mAppendBufferLen c'" "WaveClip.mOffset c1 = WaveClip.mOffset c'"
    "pending c1 = pending c'"
    by (simp_all add: c1_def UpdateEnvelopeTrackLen_def pending_def)
  show ?thesis
  proof (cases "mAppendBufferLen c1 > 0")
    case False
    then have z: "mAppendBufferLen c' = 0"
      using c1(3) by simp
    then have pz: "pending c' = []"
      by (simp add: pending_def)
    have fl: "WaveClip_Flush conv True stl c1 = Some (Inr c1)"
      using False by (simp add: WaveClip_Flush_def)
    have "clip_ok c1"
      using a(2,4,5,6) by (simp add: clip_ok_def c1)
    then show ?thesis
      using app fl a(3,7,8,9) z pz c0 p0 by (simp add: c1)
  next
    case True
    have cid': "\<And>x. conv (mSampleFormat (mSequence c')) (mSampleFormat (mSequence c')) x = x"
      using cid a(3) by simp
    have l1: "mAppendBufferLen c' \<le> length (mAppendBuffer c')"
      using a(5,6) by simp
    have nov': "mNumSamples (mSequence c') + int (mAppendBufferLen c') \<le> 9223372036854775807"
      using a(8) nov c0 by simp
    obtain s' where s': "Sequence_Append conv True (mSequence c') (mAppendBuffer c')
                            (mSampleFormat (mSequence c')) (mAppendBufferLen c') = Some (Inr s')"
      "seq_ok s'"
      "seqData conv (mSampleFormat (mSequence c')) s'
         = seqData conv (mSampleFormat (mSequence c')) (mSequence c')
           @ take (mAppendBufferLen c') (mAppendBuffer c')"
      "mNumSamples s' = mNumSamples (mSequence c') + int (mAppendBufferLen c')"
      "mSampleFormat s' = mSampleFormat (mSequence c')"
      "mMaxSamples s' = mMaxSamples (mSequence c')"
      using Sequence_Append_ok [where s = "mSequence c'" and len = "mAppendBufferLen c'"
          and buffer = "mAppendBuffer c'" and conv = conv] a(2) l1 cid' nov'
      by blast
    define c2 where "c2 = UpdateEnvelopeTrackLen stl (c1\<lparr>mSequence := s', mAppendBufferLen := 0\<rparr>)"
    have fl: "WaveClip_Flush conv True stl c1 = Some (Inr c2)"
      using True s'(1) by (simp add: WaveClip_Flush_def c1 c2_def)
    have c2: "mSequence c2 = s'" "mAppendBuffer c2 = mAppendBuffer c'" "mAppendBufferLen c2 = 0"
      "WaveClip.mOffset c2 = WaveClip.mOffset c'"
      by (simp_all add: c2_def UpdateEnvelopeTrackLen_def c1)
    have "clip_ok c2"
      using s'(2,6) a(4,5) by (simp add: clip_ok_def c2)
    moreover have "seqData conv fmt (mSequence c2)
         = seqData conv fmt (mSequence c) @ pending c @ map (conv format fmt) (take len buffer)"
      using s'(3) a(3,7) c0 p0 by (simp add: c2 pending_def)
    moreover have "mNumSamples (mSequence c2)
         = mNumSamples (mSequence c) + int (mAppendBufferLen c) + int len"
      using s'(4) a(8) c0 by (simp add: c2)
    ultimately show ?thesis
      using app fl s'(5) a(3,9) c0 by (simp add: c2)
  qed
qed

lemma Rightmost_loop_offsets:
  "map WaveClip.mOffset cs = map WaveClip.mOffset cs' \<Longrightarrow>
   Rightmost_loop cs i r m = Rightmost_loop cs' i r m"
proof (induction cs arbitrary: cs' i r m)
  case Nil
  then show ?case by simp
next
  case (Cons a cs)
  then obtain a' rest where c': "cs' = a' # rest" "WaveClip.mOffset a = WaveClip.mOffset a'"
      "map WaveClip.mOffset cs = map WaveClip.mOffset rest"
    by (cases cs') auto
  show ?case
    unfolding c'(1) using Cons.IH [OF c'(3)] c'(2) by simp
qed

lemma Rightmost_loop_bound: "r < i \<Longrightarrow> Rightmost_loop cs i r m < i + length cs"
proof (induction cs arbitrary: i r m)
  case Nil
  then show ?case by simp
next
  case (Cons a cs)
  have a: "Rightmost_loop cs (i + 1) i (WaveClip.mOffset a) < i + 1 + length cs"
    by (rule Cons.IH) simp
  have b: "Rightmost_loop cs (i + 1) r m < i + 1 + length cs"
    using Cons.prems by (intro Cons.IH) simp
  show ?case
    using a b by simp
qed

lemma Rightmost_index:
  assumes "RightmostOrNewClip t = (t0, i)"
  shows "i < length (mClips t0)" and "mClips t0 \<noteq> []" and "RightmostOrNewClip t0 = (t0, i)"
proof -
  show i: "i < length (mClips t0)"
  proof (cases "mClips t = []")
    case True
    then show ?thesis
      using assms by (auto simp: RightmostOrNewClip_def)
  next
    case False
    then obtain a cs where "mClips t = a # cs"
      by (cases "mClips t") auto
    then show ?thesis
      using assms Rightmost_loop_bound [of 0 1 cs "WaveClip.mOffset a"]
      by (auto simp: RightmostOrNewClip_def)
  qed
  then show ne: "mClips t0 \<noteq> []"
    by auto
  show "RightmostOrNewClip t0 = (t0, i)"
  proof (cases "mClips t = []")
    case True
    then show ?thesis
      using assms by (auto simp: RightmostOrNewClip_def)
  next
    case False
    then show ?thesis
      using assms by (auto simp: RightmostOrNewClip_def)
  qed
qed

lemma Rightmost_update:
  assumes "RightmostOrNewClip t0 = (t0, i)" and "mClips t0 \<noteq> []" and "i < length (mClips t0)"
    and "WaveClip.mOffset c = WaveClip.mOffset (mClips t0 ! i)"
  shows "RightmostOrNewClip (t0\<lparr>mClips := (mClips t0)[i := c]\<rparr>) = (t0\<lparr>mClips := (mClips t0)[i := c]\<rparr>, i)"
proof -
  obtain a cs where cs: "mClips t0 = a # cs"
    using assms(2) by (cases "mClips t0") auto
  have m: "map WaveClip.mOffset ((mClips t0)[i := c]) = map WaveClip.mOffset (mClips t0)"
    using assms(3,4) by (simp add: map_update list_update_same_conv)
  obtain a' cs' where cs': "(mClips t0)[i := c] = a' # cs'"
    using cs by (cases i) auto
  have "map WaveClip.mOffset (a' # cs') = map WaveClip.mOffset (a # cs)"
    using m unfolding cs' unfolding cs .
  then have o: "WaveClip.mOffset a' = WaveClip.mOffset a" "map WaveClip.mOffset cs' = map WaveClip.mOffset cs"
    by simp_all
  have "Rightmost_loop cs' 1 0 (WaveClip.mOffset a') = Rightmost_loop cs 1 0 (WaveClip.mOffset a)"
    unfolding o(1) using o(2) by (rule Rightmost_loop_offsets)
  moreover have "Rightmost_loop cs 1 0 (WaveClip.mOffset a) = i"
    using assms(1) by (simp add: RightmostOrNewClip_def cs)
  moreover have "mClips (t0\<lparr>mClips := (mClips t0)[i := c]\<rparr>) = a' # cs'"
    using cs' by simp
  ultimately show ?thesis
    unfolding RightmostOrNewClip_def by (simp only: list.simps if_False list.sel)
qed

lemma WaveTrack_Append_Flush_data:
  assumes rm: "RightmostOrNewClip t = (t0, i)"
    and ok: "clip_ok (mClips t0 ! i)"
    and fmt: "fmt = mSampleFormat (mSequence (mClips t0 ! i))"
    and cid: "\<And>x. conv fmt fmt x = x"
    and len: "len \<le> length buffer"
    and nov: "GetNumSamples (mClips t0 ! i) + int (mAppendBufferLen (mClips t0 ! i)) + int len
              \<le> 9223372036854775807"
  shows "\<exists>t1 t2 c2. WaveTrack_Append conv True stl t buffer format len = Some (Inr t1)
     \<and> WaveTrack_Flush conv True stl t1 = Some (Inr t2)
     \<and> RightmostOrNewClip t2 = (t2, i)
     \<and> mClips t2 = (mClips t0)[i := c2]
     \<and> clip_ok c2 \<and> mAppendBufferLen c2 = 0 \<and> mSampleFormat (mSequence c2) = fmt
     \<and> GetNumSamples c2
         = GetNumSamples (mClips t0 ! i) + int (mAppendBufferLen (mClips t0 ! i)) + int len
     \<and> seqData conv fmt (mSequence c2)
         = seqData conv fmt (mSequence (mClips t0 ! i)) @ pending (mClips t0 ! i)
           @ map (conv format fmt) (take len buffer)
     \<and> WaveClip.mOffset c2 = WaveClip.mOffset (mClips t0 ! i)"
proof -
  note ri = Rightmost_index [OF rm]
  define c where "c = mClips t0 ! i"
  obtain c1 c2 where cl:
    "WaveClip_Append conv True stl c buffer format len = Some (Inr c1)"
    "WaveClip_Flush conv True stl c1 = Some (Inr c2)"
    "clip_ok c2" "mAppendBufferLen c2 = 0" "mSampleFormat (mSequence c2) = fmt"
    "seqData conv fmt (mSequence c2)
         = seqData conv fmt (mSequence c) @ pending c @ map (conv format fmt) (take len buffer)"
    "mNumSamples (mSequence c2) = mNumSamples (mSequence c) + int (mAppendBufferLen c) + int len"
    "WaveClip.mOffset c2 = WaveClip.mOffset c"
    using WaveClip_Append_Flush_ok [where c = c and fmt = fmt and conv = conv and len = len
        and buffer = buffer and stl = stl and format = format]
      ok fmt cid len nov unfolding c_def GetNumSamples_def
    by blast
  have o1: "WaveClip.mOffset c1 = WaveClip.mOffset c"
  proof (cases "mAppendBufferLen c1 > 0")
    case True
    then show ?thesis
      using cl(2,8)
      by (auto simp: WaveClip_Flush_def UpdateEnvelopeTrackLen_def split: option.splits sum.splits)
  next
    case False
    then show ?thesis
      using cl(2,8) by (simp add: WaveClip_Flush_def)
  qed
  define t1 where "t1 = t0\<lparr>mClips := (mClips t0)[i := c1]\<rparr>"
  define t2 where "t2 = t0\<lparr>mClips := (mClips t0)[i := c2]\<rparr>"
  have app: "WaveTrack_Append conv True stl t buffer format len = Some (Inr t1)"
    unfolding WaveTrack_Append_def rm using cl(1) by (simp add: c_def t1_def)
  have r1: "RightmostOrNewClip t1 = (t1, i)"
    unfolding t1_def using ri(3,2,1) o1 unfolding c_def by (rule Rightmost_update)
  have n1: "mClips t1 ! i = c1"
    using ri(1) by (simp add: t1_def)
  have u: "t1\<lparr>mClips := (mClips t1)[i := c2]\<rparr> = t2"
    by (simp add: t1_def t2_def)
  have fl: "WaveTrack_Flush conv True stl t1 = Some (Inr t2)"
    unfolding WaveTrack_Flush_def r1 using cl(2) by (simp add: n1 u)
  have r2: "RightmostOrNewClip t2 = (t2, i)"
    unfolding t2_def using ri(3,2,1) cl(8) unfolding c_def by (rule Rightmost_update)
  have "mClips t2 = (mClips t0)[i := c2]"
    by (simp add: t2_def)
  then show ?thesis
    using app fl r2 cl(3-8) unfolding c_def GetNumSamples_def by blast
qed

text \<open>Within the 64-bit range the overflow check of \<open>Sequence_Append\<close> passes.\<close>

lemma Sequence_Append_in_range:
  assumes "0 \<le> mNumSamples s" and "mNumSamples s + int len \<le> 9223372036854775807" and "len \<noteq> 0"
  shows "Sequence_Append conv fileOpens s buffer format len =
     (let buffer2 = replicate (mMaxSamples s) 0
         in if mBlock s \<noteq> [] \<and> GetLength (sb_f (last (mBlock s))) < mMinSamples s then
              (let lastBlock = last (mBlock s);
                   length = GetLength (sb_f lastBlock);
                   addLen = min (mMaxSamples s - length) len
               in case Sequence_Read conv buffer2 0 (mSampleFormat s) lastBlock 0 length True of
                    Inl e \<Rightarrow> Some (Inl e)
                  | Inr (buffer2a, ok) \<Rightarrow>
                      (let buffer2b = CopySamples conv buffer format buffer2a length (mSampleFormat s) addLen;
                           newLastBlockLen = length + addLen
                       in case NewSimpleBlockFile fileOpens buffer2b newLastBlockLen (mSampleFormat s) of
                            Inl e \<Rightarrow> Some (Inl e)
                          | Inr pFile \<Rightarrow>
                              (case Append_new_blocks conv fileOpens s (drop addLen buffer) format
                                      (len - addLen) buffer2b
                                      [\<lparr>sb_f = pFile, sb_start = sb_start lastBlock\<rparr>]
                                      (wrap64 (mNumSamples s + int addLen)) of
                                 None \<Rightarrow> None
                               | Some (Inl e) \<Rightarrow> Some (Inl e)
                               | Some (Inr (newBlock, newNumSamples)) \<Rightarrow>
                                   Some (AppendBlocksIfConsistent s newBlock True newNumSamples))))
            else
              (case Append_new_blocks conv fileOpens s buffer format len buffer2 [] (mNumSamples s) of
                 None \<Rightarrow> None
               | Some (Inl e) \<Rightarrow> Some (Inl e)
               | Some (Inr (newBlock, newNumSamples)) \<Rightarrow>
                   Some (AppendBlocksIfConsistent s newBlock False newNumSamples)))"
  unfolding Sequence_Append_def using not_Overflows [OF assms(1,2)] assms(3) by simp

lemmas append_eval = WaveTrack_Append_def WaveTrack_Flush_def RightmostOrNewClip_def new_WaveTrack_def
  new_WaveClip_def new_Sequence_def WaveClip_Append_def WaveClip_Flush_def Append_loop.simps
  Append_flush_def Sequence_Append_in_range Append_new_blocks.simps AppendBlocksIfConsistent_def
  ConsistencyCheck_def GetIdealAppendLen_def GetMaxBlockSize_def GetIdealBlockSize_def
  NewSimpleBlockFile_def CopySamples_def UpdateEnvelopeTrackLen_def poke_def
  GetLength_def Let_def no_conversion_def keep_envelope_def float_clip_def single_clip_track_def
  GetNumSamples_def wrap64_def

lemma fresh_append: "WaveTrack_Append no_conversion True keep_envelope (new_WaveTrack floatSample 44100) [1/2] floatSample 1
  = Some (Inr (single_clip_track (float_clip (1/2 # replicate 262143 0) 1 [] 0)))"
  by (simp add: append_eval)

lemma pending_append: "WaveTrack_Append no_conversion True keep_envelope (single_clip_track (float_clip (1/2 # replicate 262143 0) 1 [] 0)) [1/4] floatSample 1
  = Some (Inr (single_clip_track (float_clip (1/2 # 1/4 # replicate 262142 0) 2 [] 0)))"
  by (simp add: append_eval)

lemma pending_flush: "WaveTrack_Flush no_conversion True keep_envelope (single_clip_track (float_clip (1/2 # 1/4 # replicate 262142 0) 2 [] 0))
  = Some (Inr (single_clip_track (float_clip (1/2 # 1/4 # replicate 262142 0) 0
        [\<lparr>sb_f = Simple 2 floatSample (Some [1/2, 1/4]), sb_start = 0\<rparr>] 2)))"
  by (simp add: append_eval)


lemma drop_length_append: "n = length A \<Longrightarrow> drop n (A @ M) = M"
  by simp

lemma Rightmost_loop_greatest:
  assumes "length pre = i" and "r < i" and "m = WaveClip.mOffset (pre ! r)"
    and "\<forall>j < i. WaveClip.mOffset (pre ! j) \<le> m"
    and "\<forall>j < r. WaveClip.mOffset (pre ! j) < m"
  shows "Rightmost_loop cs i r m < length (pre @ cs)
     \<and> (\<forall>j < length (pre @ cs).
           WaveClip.mOffset ((pre @ cs) ! j) \<le> WaveClip.mOffset ((pre @ cs) ! Rightmost_loop cs i r m))
     \<and> (\<forall>j < Rightmost_loop cs i r m.
           WaveClip.mOffset ((pre @ cs) ! j) < WaveClip.mOffset ((pre @ cs) ! Rightmost_loop cs i r m))"
  using assms
proof (induction cs arbitrary: pre i r m)
  case Nil
  then show ?case
    by simp
next
  case (Cons a cs)
  have e: "(pre @ [a]) @ cs = pre @ a # cs"
    by simp
  have l: "length (pre @ [a]) = i + 1"
    using Cons.prems(1) by simp
  show ?case
  proof (cases "m < WaveClip.mOffset a")
    case True
    have 3: "WaveClip.mOffset a = WaveClip.mOffset ((pre @ [a]) ! i)"
      unfolding Cons.prems(1) [symmetric] by simp
    have 4: "\<forall>j < i + 1. WaveClip.mOffset ((pre @ [a]) ! j) \<le> WaveClip.mOffset a"
      using Cons.prems(1,4) True by (auto simp: nth_append less_Suc_eq)
    have 5: "\<forall>j < i. WaveClip.mOffset ((pre @ [a]) ! j) < WaveClip.mOffset a"
      using Cons.prems(1,4) True by (auto simp: nth_append)
    have 2: "i < i + 1"
      by simp
    show ?thesis
      using Cons.IH [OF l 2 3 4 5] True unfolding e by simp
  next
    case False
    have 2: "r < i + 1"
      using Cons.prems(2) by simp
    have 3: "m = WaveClip.mOffset ((pre @ [a]) ! r)"
      using Cons.prems(1,2,3) by (simp add: nth_append)
    have 4: "\<forall>j < i + 1. WaveClip.mOffset ((pre @ [a]) ! j) \<le> m"
      using Cons.prems(1,4) False by (auto simp: nth_append less_Suc_eq)
    have 5: "\<forall>j < r. WaveClip.mOffset ((pre @ [a]) ! j) < m"
      using Cons.prems(1,2,5) by (auto simp: nth_append)
    show ?thesis
      using Cons.IH [OF l 2 3 4 5] False unfolding e by simp
  qed
qed

lemma Rightmost_greatest:
  assumes "RightmostOrNewClip t = (t0, i)"
  shows "\<forall>j < length (mClips t0). WaveClip.mOffset (mClips t0 ! j) \<le> WaveClip.mOffset (mClips t0 ! i)"
    and "\<forall>j < i. WaveClip.mOffset (mClips t0 ! j) < WaveClip.mOffset (mClips t0 ! i)"
proof -
  have "(\<forall>j < length (mClips t0). WaveClip.mOffset (mClips t0 ! j) \<le> WaveClip.mOffset (mClips t0 ! i))
      \<and> (\<forall>j < i. WaveClip.mOffset (mClips t0 ! j) < WaveClip.mOffset (mClips t0 ! i))"
  proof (cases "mClips t = []")
    case True
    then show ?thesis
      using assms by (auto simp: RightmostOrNewClip_def)
  next
    case False
    then obtain a cs where cs: "mClips t = a # cs"
      by (cases "mClips t") auto
    have ti: "t0 = t" "i = Rightmost_loop cs 1 0 (WaveClip.mOffset a)"
      using assms by (auto simp: RightmostOrNewClip_def cs)
    have g: "Rightmost_loop cs 1 0 (WaveClip.mOffset a) < length ([a] @ cs)
     \<and> (\<forall>j < length ([a] @ cs).
           WaveClip.mOffset (([a] @ cs) ! j)
             \<le> WaveClip.mOffset (([a] @ cs) ! Rightmost_loop cs 1 0 (WaveClip.mOffset a)))
     \<and> (\<forall>j < Rightmost_loop cs 1 0 (WaveClip.mOffset a).
           WaveClip.mOffset (([a] @ cs) ! j)
             < WaveClip.mOffset (([a] @ cs) ! Rightmost_loop cs 1 0 (WaveClip.mOffset a)))"
      by (rule Rightmost_loop_greatest) simp_all
    have e: "[a] @ cs = mClips t0"
      using cs ti(1) by simp
    show ?thesis
      using g unfolding e ti(2) [symmetric] by blast
  qed
  then show "\<forall>j < length (mClips t0). WaveClip.mOffset (mClips t0 ! j) \<le> WaveClip.mOffset (mClips t0 ! i)"
    and "\<forall>j < i. WaveClip.mOffset (mClips t0 ! j) < WaveClip.mOffset (mClips t0 ! i)"
    by blast+
qed

text \<open>The first clip of greatest offset is the clip that \<open>RightmostOrNewClip\<close> returns.\<close>

lemma Rightmost_unique:
  assumes t0: "t0 = (if mClips t = [] then
                   t\<lparr>mClips := [(new_WaveClip (mFormat t) (WaveTrack.mRate t))
                                    \<lparr>WaveClip.mOffset := WaveTrack.mOffset t\<rparr>]\<rparr>
                 else t)"
    and i: "i < length (mClips t0)"
    and ge: "\<forall>j < length (mClips t0). WaveClip.mOffset (mClips t0 ! j) \<le> WaveClip.mOffset (mClips t0 ! i)"
    and first: "\<forall>j < i. WaveClip.mOffset (mClips t0 ! j) < WaveClip.mOffset (mClips t0 ! i)"
  shows "RightmostOrNewClip t = (t0, i)"
proof -
  obtain t0' k where rk: "RightmostOrNewClip t = (t0', k)"
    by (cases "RightmostOrNewClip t") auto
  have e: "t0' = t0"
    using rk t0 by (auto simp: RightmostOrNewClip_def split: if_splits)
  note ri = Rightmost_index [OF rk] and rg = Rightmost_greatest [OF rk]
  have "k = i"
  proof (rule ccontr)
    assume "k \<noteq> i"
    then consider "k < i" | "i < k"
      by linarith
    then show False
    proof cases
      case 1
      then have "WaveClip.mOffset (mClips t0 ! k) < WaveClip.mOffset (mClips t0 ! i)"
        using first by blast
      moreover have "WaveClip.mOffset (mClips t0 ! i) \<le> WaveClip.mOffset (mClips t0 ! k)"
        using rg(1) i unfolding e by blast
      ultimately show False
        by linarith
    next
      case 2
      then have "WaveClip.mOffset (mClips t0 ! i) < WaveClip.mOffset (mClips t0 ! k)"
        using rg(2) unfolding e by blast
      moreover have "WaveClip.mOffset (mClips t0 ! k) \<le> WaveClip.mOffset (mClips t0 ! i)"
        using ge ri(1) unfolding e by blast
      ultimately show False
        by linarith
    qed
  qed
  then show ?thesis
    using rk e by simp
qed


lemma pending_flush_unwritten:
  "WaveTrack_Flush no_conversion False keep_envelope
     (single_clip_track (float_clip (1/2 # 1/4 # replicate 262142 0) 2 [] 0))
   = Some (Inl FileException)"
  by (simp add: append_eval)

lemma three_clip_track_clips:
  "mClips three_clip_track ! 0
     = float_clip [] 0 [\<lparr>sb_f = Simple 2 floatSample (Some [1/16, 1/32]), sb_start = 0\<rparr>] 2"
  "mClips three_clip_track ! 1
     = (float_clip (1/8 # replicate 262143 0) 1
          [\<lparr>sb_f = Simple 2 floatSample (Some [1/2, -1/4]), sb_start = 0\<rparr>] 2)
         \<lparr>WaveClip.mOffset := 2\<rparr>"
  "mClips three_clip_track ! 2
     = (float_clip [] 0 [\<lparr>sb_f = Simple 1 floatSample (Some [1/64]), sb_start = 0\<rparr>] 1)
         \<lparr>WaveClip.mOffset := 1\<rparr>"
  "length (mClips three_clip_track) = 3"
  by (simp_all add: three_clip_track_def)

lemma three_clip_track_rightmost:
  "clip_ok (mClips three_clip_track ! 1)"
  "GetNumSamples (mClips three_clip_track ! 1) = 2"
  "mAppendBufferLen (mClips three_clip_track ! 1) = 1"
  "mSampleFormat (mSequence (mClips three_clip_track ! 1)) = floatSample"
  "seqData no_conversion floatSample (mSequence (mClips three_clip_track ! 1)) = [1 / 2, - (1 / 4)]"
  "pending (mClips three_clip_track ! 1) = [1 / 8]"
  unfolding three_clip_track_clips
  by (simp_all add: clip_ok_def seq_ok_def consistent_def seqComplete_def blocksComplete_def
        float_clip_def GetNumSamples_def seqData_def blocksData_def pending_def no_conversion_def
        GetLength_def)

subsection \<open>Time conversion\<close>



lemma unit_rate_clip_fields:
  "WaveClip.mOffset (unit_rate_clip off n) = off" "WaveClip.mRate (unit_rate_clip off n) = 1"
  "mNumSamples (mSequence (unit_rate_clip off n)) = int n"
  "mAppendBufferLen (unit_rate_clip off n) = 0"
  by (simp_all add: unit_rate_clip_def)








text \<open>
  Claim C10: on a track with a positive sample rate, converting a nonnegative sample
  position to a time and back gives the position again (exact real arithmetic).
\<close>

theorem samples_time_roundtrip:
  assumes "0 < WaveTrack.mRate t" and "0 \<le> n"
  shows "TimeToLongSamples exact t (LongSamplesToTime exact t n) = n"
proof -
  have "real_of_int n / real_of_int (WaveTrack.mRate t) * real_of_int (WaveTrack.mRate t)
        = real_of_int n"
    using assms(1) by simp
  then have "TimeToLongSamples exact t (LongSamplesToTime exact t n) = \<lfloor>real_of_int n + 1 / 2\<rfloor>"
    by (simp add: TimeToLongSamples_def LongSamplesToTime_def exact_def)
  also have "\<dots> = n"
    by linarith
  finally show ?thesis .
qed

theorem samples_time_roundtrip_witness:
  "(0::int) < 44100 \<and> (0::int) \<le> 12345 \<and>
   TimeToLongSamples exact \<lparr>mClips = [], mFormat = floatSample, mRate = 44100, mGain = 1, mPan = 0, mOffset = 0\<rparr>
     (LongSamplesToTime exact \<lparr>mClips = [], mFormat = floatSample, mRate = 44100, mGain = 1, mPan = 0, mOffset = 0\<rparr> 12345)
   = 12345"
  using samples_time_roundtrip
    [of "\<lparr>mClips = [], mFormat = floatSample, mRate = 44100, mGain = 1, mPan = 0, mOffset = 0\<rparr>" 12345]
  by simp

subsection \<open>Position of a time relative to a clip\<close>

lemma dbl_far: "dbl (9223372036854774784 * real_of_int 1) = 9223372036854774784"
  by (subst dbl_binade [where a = 62 and b = 0]) (simp_all add: round_even_def)

lemma dbl_far_half: "dbl (9223372036854774784 + 1 / 2) = 9223372036854774784"
  by (subst dbl_binade [where a = 62 and b = 0]) (simp_all add: round_even_def)

lemma dbl_zero_one: "dbl (0 * real_of_int 1) = 0" "dbl (0 + 1 / 2) = 1 / 2"
  "dbl (1 * real_of_int 1) = 1" "dbl (1 + 1 / 2) = 3 / 2"
  using dbl_half_int [of 3] by simp_all

text \<open>
  Claim C9 fails for a clip that ends beyond the greatest sample position: the clip of
  rate 1 at offset \<open>2\<^sup>6\<^sup>3 - 1024\<close> with 1024 samples and an empty append buffer starts at
  sample \<open>2\<^sup>6\<^sup>3 - 1024\<close>, its end wraps to \<open>-2\<^sup>6\<^sup>3\<close>, and at time 0 both
  \<open>BeforeClip\<close> and \<open>AfterClip\<close> hold.
\<close>

theorem clip_before_and_after_at_wrap:
  "1 \<le> GetNumSamples (unit_rate_clip 9223372036854774784 1024)
   \<and> mAppendBufferLen (unit_rate_clip 9223372036854774784 1024) = 0
   \<and> GetStartSample (unit_rate_clip 9223372036854774784 1024) = 9223372036854774784
   \<and> GetEndSample (unit_rate_clip 9223372036854774784 1024) = - 9223372036854775808
   \<and> BeforeClip (unit_rate_clip 9223372036854774784 1024) 0
   \<and> AfterClip (unit_rate_clip 9223372036854774784 1024) 0"
proof -
  have st: "GetStartSample (unit_rate_clip 9223372036854774784 1024) = 9223372036854774784"
    unfolding GetStartSample_def unit_rate_clip_fields dbl_far dbl_far_half
    by (simp add: sampleCount_of_def)
  have en: "GetEndSample (unit_rate_clip 9223372036854774784 1024) = - 9223372036854775808"
    unfolding GetEndSample_def st unit_rate_clip_fields by (simp add: wrap64_def)
  have ts: "sampleCount_of (real_of_int \<lfloor>dbl (dbl (0 * real_of_int 1) + 1 / 2)\<rfloor>) = 0"
    unfolding dbl_zero_one by (simp add: sampleCount_of_def)
  have b: "BeforeClip (unit_rate_clip 9223372036854774784 1024) 0"
    unfolding BeforeClip_def Let_def st unit_rate_clip_fields ts by simp
  have a: "AfterClip (unit_rate_clip 9223372036854774784 1024) 0"
    unfolding AfterClip_def Let_def en unit_rate_clip_fields ts by (simp add: wrap64_def)
  show ?thesis
    using st en a b by (simp add: GetNumSamples_def unit_rate_clip_fields)
qed

text \<open>
  Claim C9, as the code has it: for a clip that holds at least one sample, whose append
  buffer is empty and whose last sample lies at a position of at most \<open>2\<^sup>6\<^sup>3 - 2\<close>, so
  that its end does not wrap, exactly one of \<open>BeforeClip t\<close>, \<open>WithinClip t\<close>,
  \<open>AfterClip t\<close> holds at every time \<open>t\<close>: at least one holds and no two hold
  together.
\<close>

theorem clip_trichotomy:
  assumes "1 \<le> GetNumSamples c" and "mAppendBufferLen c = 0"
    and "GetStartSample c + GetNumSamples c \<le> 9223372036854775807"
  shows "(BeforeClip c t \<or> WithinClip c t \<or> AfterClip c t)
         \<and> \<not> (BeforeClip c t \<and> WithinClip c t)
         \<and> \<not> (BeforeClip c t \<and> AfterClip c t)
         \<and> \<not> (WithinClip c t \<and> AfterClip c t)"
proof -
  have lo: "- 9223372036854775808 \<le> GetStartSample c"
    unfolding GetStartSample_def using sampleCount_of_range by blast
  have e: "GetEndSample c = GetStartSample c + GetNumSamples c"
    unfolding GetEndSample_def GetNumSamples_def
    using lo assms(1,3) unfolding GetNumSamples_def by (intro wrap64_id) linarith+
  have w: "wrap64 (GetEndSample c + int (mAppendBufferLen c)) = GetStartSample c + GetNumSamples c"
    unfolding e assms(2) using lo assms(1,3) by (simp add: wrap64_id)
  show ?thesis
    unfolding BeforeClip_def WithinClip_def AfterClip_def Let_def w using assms(1) by auto
qed

theorem clip_trichotomy_witness:
  "1 \<le> GetNumSamples (unit_rate_clip 0 3) \<and> mAppendBufferLen (unit_rate_clip 0 3) = 0
   \<and> GetStartSample (unit_rate_clip 0 3) + GetNumSamples (unit_rate_clip 0 3) \<le> 9223372036854775807
   \<and> WithinClip (unit_rate_clip 0 3) 1
   \<and> \<not> BeforeClip (unit_rate_clip 0 3) 1
   \<and> \<not> AfterClip (unit_rate_clip 0 3) 1"
proof -
  have st: "GetStartSample (unit_rate_clip 0 3) = 0"
    unfolding GetStartSample_def unit_rate_clip_fields dbl_zero_one
    by (simp add: sampleCount_of_def)
  have n: "GetNumSamples (unit_rate_clip 0 3) = 3"
    by (simp add: GetNumSamples_def unit_rate_clip_fields)
  have ts: "sampleCount_of (real_of_int \<lfloor>dbl (dbl (1 * real_of_int 1) + 1 / 2)\<rfloor>) = 1"
    unfolding dbl_zero_one by (simp add: sampleCount_of_def)
  have w: "WithinClip (unit_rate_clip 0 3) 1"
    unfolding WithinClip_def Let_def unit_rate_clip_fields ts st GetEndSample_def
    by (simp add: wrap64_def)
  show ?thesis
    using clip_trichotomy [of "unit_rate_clip 0 3" 1] w
    unfolding st n by (simp add: unit_rate_clip_fields)
qed

subsection \<open>Silent block files\<close>

text \<open>
  Claim C8: for every start offset, length \<open>len\<close> and sample format, reading a silent
  block file stores exactly \<open>len\<close> zero samples at the destination pointer, leaves the
  rest of the buffer as it was and returns \<open>len\<close>, whatever the start offset; a freshly
  constructed silent block file of any length has \<open>mMin = mMax = mRMS = 0\<close>.
\<close>

theorem silent_block_reads_zeros:
  "ReadData conv (Silent n mn mx rms) data p format start len mayThrow
     = Inr (take p data @ replicate len 0 @ drop (p + len) data, len)
   \<and> ReadData conv (SilentBlockFile n) data p format start len mayThrow
     = Inr (take p data @ replicate len 0 @ drop (p + len) data, len)
   \<and> mMin (SilentBlockFile n) = 0 \<and> mMax (SilentBlockFile n) = 0 \<and> mRMS (SilentBlockFile n) = 0"
  by (simp add: SilentBlockFile_def ClearSamples_same poke_def)

subsection \<open>Thresholds and sensitivity\<close>

lemma length_filter_mono:
  "(\<forall>x \<in> set xs. P x \<longrightarrow> Q x) \<Longrightarrow> length (filter P xs) \<le> length (filter Q xs)"
  by (induction xs) auto

text \<open>
  Claim C7: for a sealed profile and a frame, the threshold
  \<open>meanLog[k] + (sensitivityDb/10) \<cdot> stdevLog[k]\<close> of every bin with
  \<open>stdevLog[k] \<ge> 0\<close> does not decrease when \<open>sensitivityDb\<close> grows, and so the number
  of bins of the frame classified as noise does not decrease either.
\<close>

theorem threshold_monotone_in_sensitivity:
  assumes "\<forall>k < length magnitudeSquared. 0 \<le> stdevLog st ! k" and "s1 \<le> s2"
  shows "(\<forall>k < length magnitudeSquared. threshold st k s1 \<le> threshold st k s2)
         \<and> noiseCount st s1 magnitudeSquared \<le> noiseCount st s2 magnitudeSquared"
proof -
  have mono: "threshold st k s1 \<le> threshold st k s2" if "k < length magnitudeSquared" for k
  proof -
    have "0 \<le> stdevLog st ! k"
      using assms(1) that by blast
    then have "s1 / 10 * stdevLog st ! k \<le> s2 / 10 * stdevLog st ! k"
      using assms(2) by (intro mult_right_mono) simp_all
    then show ?thesis
      by (simp add: threshold_def)
  qed
  have "\<forall>k \<in> set [0..<length magnitudeSquared].
          isNoise st s1 magnitudeSquared k \<longrightarrow> isNoise st s2 magnitudeSquared k"
    using mono by (fastforce simp: isNoise_def)
  then have "noiseCount st s1 magnitudeSquared \<le> noiseCount st s2 magnitudeSquared"
    unfolding noiseCount_def by (rule length_filter_mono)
  with mono show ?thesis
    by blast
qed

theorem threshold_monotone_in_sensitivity_witness:
  "0 \<le> stdevLog one_bin_statistics ! 0 \<and> (0::real) \<le> 10
   \<and> threshold one_bin_statistics 0 0 \<le> threshold one_bin_statistics 0 10
   \<and> noiseCount one_bin_statistics 0 [1 - 1 / 10 ^ 6] \<le> noiseCount one_bin_statistics 10 [1 - 1 / 10 ^ 6]
   \<and> noiseCount one_bin_statistics 0 [1 - 1 / 10 ^ 6] = 0
   \<and> noiseCount one_bin_statistics 10 [1 - 1 / 10 ^ 6] = 1"
  using threshold_monotone_in_sensitivity [of "[1 - 1 / 10 ^ 6]" one_bin_statistics 0 10]
  by (simp add: one_bin_statistics_def noiseCount_def isNoise_def threshold_def)

subsection \<open>Reading a track\<close>

lemma short_track_wellformed: "wellformed (mClips short_track)"
  by (simp add: wellformed_def short_track_def consistent_def GetLength_def example_clip_start
                example_clip_fields GetEndSample_def clip_in_reach_def in_reach_def wrap64_def)

lemma loud_track_wellformed: "wellformed (mClips loud_track) \<and> allComplete (mClips loud_track)"
  by (simp add: wellformed_def loud_track_def consistent_def GetLength_def example_clip_start
                example_clip_fields GetEndSample_def clip_in_reach_def in_reach_def wrap64_def
                allComplete_def seqComplete_def blocksComplete_def)

text \<open>
  Claim C1 fails as it is written, in two ways.  With \<open>mayThrow\<close> true, which is the
  default of \<^verbatim>\<open>WaveTrack::Get\<close>, a block file that delivers fewer samples than requested
  makes the read throw a \<^verbatim>\<open>FileException\<close> instead of zero-filling the tail.  And a
  request that reaches beyond the greatest sample position, here two samples from
  \<open>2\<^sup>6\<^sup>3 - 1\<close> on, has a wrapped end: the read takes it to lie within the clip, clears
  nothing, copies nothing and returns the destination as it was.
\<close>

theorem get_throws_or_leaves_buffer:
  "wellformed (mClips short_track)
   \<and> WaveTrack_Get no_conversion short_track [9, 9] 0 floatSample 0 2 fillZero True = Inl FileException
   \<and> wellformed (mClips loud_track) \<and> allComplete (mClips loud_track)
   \<and> WaveTrack_Get no_conversion loud_track [9, 9] 0 floatSample 9223372036854775807 2 fillZero True
       = Inr ([9, 9], True, 0)"
proof -
  have "WaveTrack_Get no_conversion short_track [9, 9] 0 floatSample 0 2 fillZero True = Inl FileException"
    by (simp add: read_eval short_track_def)
  moreover have "WaveTrack_Get no_conversion loud_track [9, 9] 0 floatSample 9223372036854775807 2
                   fillZero True = Inr ([9, 9], True, 0)"
    by (simp add: read_eval loud_track_def)
  ultimately show ?thesis
    using short_track_wellformed loud_track_wellformed by simp
qed

text \<open>
  Claim C1, as the code has it: on a track whose clips have consistent sequences, lie
  within reach and do not overlap, a read of \<open>len\<close> samples from position \<open>start\<close>
  with fill mode \<open>fillZero\<close> returns, provided that the request lies within reach and
  that \<open>mayThrow\<close> is false or every block file holds all its samples; it stores
  exactly \<open>len\<close> samples at the destination pointer and leaves the rest of the buffer
  as it was.  A position inside a clip receives the sample of that clip, as the block file
  delivers it, which is zero where the file holds fewer samples than the block; a position
  that no clip covers receives zero.
\<close>

theorem get_fills_request:
  assumes "wellformed (mClips t)" and "p + len \<le> length buffer"
    and "allComplete (mClips t) \<or> \<not> mayThrow"
    and "in_reach start (start + int len)"
  shows "\<exists>buffer' ok k.
           WaveTrack_Get conv t buffer p format start len fillZero mayThrow = Inr (buffer', ok, k)
         \<and> length buffer' = length buffer
         \<and> (\<forall>i < len. \<forall>c \<in> set (mClips t). covers (start + int i) c \<longrightarrow>
               buffer' ! (p + i) = clipSample conv format c (start + int i))
         \<and> (\<forall>i < len. (\<forall>c \<in> set (mClips t). \<not> covers (start + int i) c) \<longrightarrow>
               buffer' ! (p + i) = 0)
         \<and> (\<forall>j < length buffer. j < p \<or> p + len \<le> j \<longrightarrow> buffer' ! j = buffer ! j)"
proof -
  have c3: "mayThrow \<longrightarrow> allComplete (mClips t)"
    using assms(3) by blast
  obtain buffer' ok k where g:
    "WaveTrack_Get conv t buffer p format start len fillZero mayThrow = Inr (buffer', ok, k)"
    "length buffer' = length buffer"
    "\<forall>j < length buffer. buffer' ! j =
               (if p \<le> j \<and> j < p + len
                then trackSample conv format (mClips t) (start + int (j - p))
                else buffer ! j)"
    using WaveTrack_Get_data [OF assms(1,2) c3 assms(4), of conv format] by blast
  have dj: "clips_disjoint (mClips t)"
    using assms(1) by (simp add: wellformed_def)
  have inr: "buffer' ! (p + i) = trackSample conv format (mClips t) (start + int i)" if "i < len" for i
  proof -
    have "p + i < length buffer"
      using that assms(2) by linarith
    then have "buffer' ! (p + i) =
               (if p \<le> p + i \<and> p + i < p + len
                then trackSample conv format (mClips t) (start + int (p + i - p))
                else buffer ! (p + i))"
      using g(3) by blast
    then show ?thesis
      using that by simp
  qed
  have a: "buffer' ! (p + i) = clipSample conv format c (start + int i)"
    if "i < len" "c \<in> set (mClips t)" "covers (start + int i) c" for i c
    using inr [OF that(1)] find_covers_unique [OF dj that(2,3)] by (simp add: trackSample_def)
  have b: "buffer' ! (p + i) = 0"
    if "i < len" "\<forall>c \<in> set (mClips t). \<not> covers (start + int i) c" for i
    using inr [OF that(1)] find_covers_none [OF that(2)] by (simp add: trackSample_def)
  have c: "buffer' ! j = buffer ! j" if "j < length buffer" "j < p \<or> p + len \<le> j" for j
  proof -
    have "buffer' ! j =
               (if p \<le> j \<and> j < p + len
                then trackSample conv format (mClips t) (start + int (j - p))
                else buffer ! j)"
      using g(3) that(1) by blast
    moreover have "\<not> (p \<le> j \<and> j < p + len)"
      using that(2) by linarith
    ultimately show ?thesis
      by (simp only: if_False)
  qed
  show ?thesis
    using g(1,2) a b c by blast
qed

theorem get_fills_request_witness:
  "wellformed (mClips gap_track) \<and> 0 + 7 \<le> length [9, 9, 9, 9, 9, 9, 9 :: real]
   \<and> (allComplete (mClips gap_track) \<or> \<not> False)
   \<and> in_reach 0 (0 + int 7)
   \<and> WaveTrack_Get no_conversion gap_track [9, 9, 9, 9, 9, 9, 9] 0 floatSample 0 7 fillZero False
       = Inr ([1 / 2, - (1 / 4), 0, 0, 3 / 4, 0, 0], False, 2)"
  using get_fills_request [of gap_track 0 7 "[9, 9, 9, 9, 9, 9, 9]" False 0 no_conversion floatSample]
    gap_track_wellformed gap_track_read
  by (simp add: in_reach_def)

subsection \<open>Gain, pan and envelope\<close>



lemma flt_1: "flt 1 = 1"
proof -
  have "(1::real) = real_of_int 8388608 * (2 ^ (1 + 149 - 24) / 2 ^ 149)"
    by simp
  then show ?thesis
    unfolding flt_def using fl_round_exact [of 1 1 24 149 8388608] by simp
qed








subsection \<open>The range of the samples read\<close>

text \<open>
  Claim C5 fails as it is written: stored float samples are returned as they are, so a
  track that holds the sample 3/2 returns it; and with fill mode \<open>fillTwo\<close> every
  position outside the clips receives the value 2.
\<close>

theorem get_returns_samples_above_one:
  "WaveTrack_Get no_conversion loud_track [0] 0 floatSample 0 1 fillZero True = Inr ([3 / 2], True, 1)
   \<and> WaveTrack_Get no_conversion loud_track [0, 0] 0 floatSample 0 2 fillTwo True = Inr ([3 / 2, 2], True, 1)
   \<and> \<not> ((3 / 2 :: real) \<le> 1)"
  by (simp add: read_eval loud_track_def)

lemma singleton_list: "length xs = 1 \<Longrightarrow> xs ! 0 = v \<Longrightarrow> xs = [v]"
  by (cases xs) auto

text \<open>
  Claim C5, as the code has it: under the conditions of claim C1, every sample of a float
  read with fill mode \<open>fillZero\<close> is zero or a sample that one of the clips of the
  track stores; so it lies in \<open>[-1, 1]\<close> when every stored sample does.  Conversely
  every stored sample is what the read of its position returns, so that the bound holds of
  all reads only if it holds of the stored samples.
\<close>

theorem get_samples_bounded:
  assumes "wellformed (mClips t)" and "p + len \<le> length buffer"
    and "allComplete (mClips t) \<or> \<not> mayThrow"
    and "in_reach start (start + int len)"
  shows "(\<exists>buffer' ok k.
           WaveTrack_Get conv t buffer p floatSample start len fillZero mayThrow = Inr (buffer', ok, k)
         \<and> (\<forall>i < len. buffer' ! (p + i) = 0
               \<or> (\<exists>c \<in> set (mClips t). buffer' ! (p + i) \<in> set (seqData conv floatSample (mSequence c))))
         \<and> ((\<forall>c \<in> set (mClips t). \<forall>x \<in> set (seqData conv floatSample (mSequence c)). - 1 \<le> x \<and> x \<le> 1)
              \<longrightarrow> (\<forall>i < len. - 1 \<le> buffer' ! (p + i) \<and> buffer' ! (p + i) \<le> 1)))
       \<and> (\<forall>c \<in> set (mClips t). \<forall>j < length (seqData conv floatSample (mSequence c)).
             \<exists>ok k. WaveTrack_Get conv t [y] 0 floatSample (GetStartSample c + int j) 1 fillZero mayThrow
                      = Inr ([seqData conv floatSample (mSequence c) ! j], ok, k))"
proof -
  have c3: "mayThrow \<longrightarrow> allComplete (mClips t)"
    using assms(3) by blast
  have cons: "list_all (\<lambda>c. consistent (mSequence c)) (mClips t)"
    and rc: "list_all clip_in_reach (mClips t)" and dj: "clips_disjoint (mClips t)"
    using assms(1) by (simp_all add: wellformed_def)
  obtain buffer' ok k where g:
    "WaveTrack_Get conv t buffer p floatSample start len fillZero mayThrow = Inr (buffer', ok, k)"
    "\<forall>j < length buffer. buffer' ! j =
               (if p \<le> j \<and> j < p + len
                then trackSample conv floatSample (mClips t) (start + int (j - p))
                else buffer ! j)"
    using WaveTrack_Get_data [OF assms(1,2) c3 assms(4), of conv floatSample] by blast
  have src: "trackSample conv floatSample (mClips t) pos = 0
             \<or> (\<exists>c \<in> set (mClips t).
                   trackSample conv floatSample (mClips t) pos \<in> set (seqData conv floatSample (mSequence c)))"
    for pos
  proof (cases "find (covers pos) (mClips t)")
    case None
    then show ?thesis
      by (simp add: trackSample_def)
  next
    case (Some c)
    then have c: "c \<in> set (mClips t)" "covers pos c"
      using find_SomeD by fastforce+
    then have "consistent (mSequence c)" "clip_in_reach c"
      using cons rc by (simp_all add: list_all_iff)
    then have "clipSample conv floatSample c pos \<in> set (seqData conv floatSample (mSequence c))"
      using c(2) by (intro clipSample_in_set)
    then show ?thesis
      using c(1) Some by (auto simp: trackSample_def)
  qed
  have val: "buffer' ! (p + i) = trackSample conv floatSample (mClips t) (start + int i)"
    if "i < len" for i
  proof -
    have "p + i < length buffer"
      using that assms(2) by linarith
    then have "buffer' ! (p + i) =
               (if p \<le> p + i \<and> p + i < p + len
                then trackSample conv floatSample (mClips t) (start + int (p + i - p))
                else buffer ! (p + i))"
      using g(2) by blast
    then show ?thesis
      using that by simp
  qed
  have one: "\<forall>i < len. buffer' ! (p + i) = 0
               \<or> (\<exists>c \<in> set (mClips t). buffer' ! (p + i) \<in> set (seqData conv floatSample (mSequence c)))"
    using val src by simp
  have two: "(\<forall>c \<in> set (mClips t). \<forall>x \<in> set (seqData conv floatSample (mSequence c)). - 1 \<le> x \<and> x \<le> 1)
              \<longrightarrow> (\<forall>i < len. - 1 \<le> buffer' ! (p + i) \<and> buffer' ! (p + i) \<le> 1)"
  proof (intro impI allI)
    fix i
    assume b: "\<forall>c \<in> set (mClips t). \<forall>x \<in> set (seqData conv floatSample (mSequence c)). - 1 \<le> x \<and> x \<le> 1"
      and i: "i < len"
    from one i consider "buffer' ! (p + i) = 0"
      | c where "c \<in> set (mClips t)" "buffer' ! (p + i) \<in> set (seqData conv floatSample (mSequence c))"
      by blast
    then show "- 1 \<le> buffer' ! (p + i) \<and> buffer' ! (p + i) \<le> 1"
    proof cases
      case 1
      then show ?thesis by simp
    next
      case 2
      then show ?thesis using b by blast
    qed
  qed
  have three: "\<exists>ok k. WaveTrack_Get conv t [y] 0 floatSample (GetStartSample c + int j) 1 fillZero mayThrow
                      = Inr ([seqData conv floatSample (mSequence c) ! j], ok, k)"
    if c: "c \<in> set (mClips t)" and j: "j < length (seqData conv floatSample (mSequence c))" for c j
  proof -
    have cc: "consistent (mSequence c)" "clip_in_reach c"
      using c cons rc by (simp_all add: list_all_iff)
    note cr = clip_in_reach_fields [OF cc(2)]
    have n: "int (length (seqData conv floatSample (mSequence c))) = mNumSamples (mSequence c)"
      using cc(1) by (rule length_seqData)
    have rq: "in_reach (GetStartSample c + int j) (GetStartSample c + int j + int 1)"
      unfolding in_reach_def using cr n j by linarith
    have cov: "covers (GetStartSample c + int j) c"
      unfolding covers_def cr(1) using n j by linarith
    obtain b1 ok1 k1 where r:
      "WaveTrack_Get conv t [y] 0 floatSample (GetStartSample c + int j) 1 fillZero mayThrow
       = Inr (b1, ok1, k1)"
      "length b1 = length [y]"
      "\<forall>i < length [y]. b1 ! i =
               (if 0 \<le> i \<and> i < 0 + 1
                then trackSample conv floatSample (mClips t) (GetStartSample c + int j + int (i - 0))
                else [y] ! i)"
      using WaveTrack_Get_data [OF assms(1) _ c3 rq, where p = 0 and buffer = "[y]" and conv = conv
          and format = floatSample]
      by auto
    have "b1 ! 0 = trackSample conv floatSample (mClips t) (GetStartSample c + int j)"
      using r(3) by simp
    also have "\<dots> = clipSample conv floatSample c (GetStartSample c + int j)"
      using find_covers_unique [OF dj c cov] by (simp add: trackSample_def)
    also have "\<dots> = seqData conv floatSample (mSequence c) ! j"
      by (simp add: clipSample_def)
    finally have "b1 = [seqData conv floatSample (mSequence c) ! j]"
      using r(2) by (intro singleton_list) simp_all
    then show ?thesis
      using r(1) by blast
  qed
  show ?thesis
    using g(1) one two three by blast
qed

theorem get_samples_bounded_witness:
  "wellformed (mClips gap_track) \<and> 0 + 7 \<le> length [9, 9, 9, 9, 9, 9, 9 :: real]
   \<and> (allComplete (mClips gap_track) \<or> \<not> False)
   \<and> in_reach 0 (0 + int 7)
   \<and> set (seqData no_conversion floatSample (mSequence (mClips gap_track ! 0))) = {1 / 2, - (1 / 4)}
   \<and> set (seqData no_conversion floatSample (mSequence (mClips gap_track ! 1))) = {3 / 4, 0}
   \<and> (\<exists>buffer' ok k.
         WaveTrack_Get no_conversion gap_track [9, 9, 9, 9, 9, 9, 9] 0 floatSample 0 7 fillZero False
           = Inr (buffer', ok, k)
         \<and> - 1 \<le> buffer' ! 4 \<and> buffer' ! 4 \<le> 1)
   \<and> (\<exists>ok k.
         WaveTrack_Get no_conversion gap_track [9] 0 floatSample
           (GetStartSample (mClips gap_track ! 1) + int 0) 1 fillZero False
           = Inr ([3 / 4], ok, k))"
proof -
  have h4: "\<forall>c \<in> set (mClips gap_track).
              \<forall>x \<in> set (seqData no_conversion floatSample (mSequence c)). - 1 \<le> x \<and> x \<le> 1"
    by (simp add: gap_track_def example_clip_def seqData_def blocksData_def no_conversion_def)
  have rq: "in_reach 0 (0 + int 7)"
    by (simp add: in_reach_def)
  have l: "0 + 7 \<le> length [9, 9, 9, 9, 9, 9, 9 :: real]"
    by simp
  have ac: "allComplete (mClips gap_track) \<or> \<not> False"
    by simp
  note T = get_samples_bounded [OF gap_track_wellformed l ac rq, where conv = no_conversion and y = 9]
  obtain buffer' ok k where g:
    "WaveTrack_Get no_conversion gap_track [9, 9, 9, 9, 9, 9, 9] 0 floatSample 0 7 fillZero False
       = Inr (buffer', ok, k)"
    "(\<forall>c \<in> set (mClips gap_track).
         \<forall>x \<in> set (seqData no_conversion floatSample (mSequence c)). - 1 \<le> x \<and> x \<le> 1)
     \<longrightarrow> (\<forall>i < 7. - 1 \<le> buffer' ! (0 + i) \<and> buffer' ! (0 + i) \<le> 1)"
    using T [THEN conjunct1] by blast
  have "\<forall>i < 7. - 1 \<le> buffer' ! (0 + i) \<and> buffer' ! (0 + i) \<le> 1"
    using g(2) h4 by blast
  then have "- 1 \<le> buffer' ! (0 + 4) \<and> buffer' ! (0 + 4) \<le> 1"
    by (rule allE [where x = 4]) simp
  then have a: "\<exists>buffer' ok k.
         WaveTrack_Get no_conversion gap_track [9, 9, 9, 9, 9, 9, 9] 0 floatSample 0 7 fillZero False
           = Inr (buffer', ok, k)
         \<and> - 1 \<le> buffer' ! 4 \<and> buffer' ! 4 \<le> 1"
    using g(1) by auto
  have c1: "mClips gap_track ! 1 \<in> set (mClips gap_track)"
    by (simp add: gap_track_def)
  have d1: "seqData no_conversion floatSample (mSequence (mClips gap_track ! 1)) = [3 / 4, 0]"
    by (simp add: gap_track_def example_clip_def seqData_def blocksData_def no_conversion_def)
  have A: "\<forall>j < length (seqData no_conversion floatSample (mSequence (mClips gap_track ! 1))).
          \<exists>ok k. WaveTrack_Get no_conversion gap_track [9] 0 floatSample
                    (GetStartSample (mClips gap_track ! 1) + int j) 1 fillZero False
                  = Inr ([seqData no_conversion floatSample (mSequence (mClips gap_track ! 1)) ! j], ok, k)"
    using T [THEN conjunct2] c1 by blast
  have len0: "0 < length (seqData no_conversion floatSample (mSequence (mClips gap_track ! 1)))"
    unfolding d1 by simp
  have "\<exists>ok k. WaveTrack_Get no_conversion gap_track [9] 0 floatSample
                    (GetStartSample (mClips gap_track ! 1) + int 0) 1 fillZero False
                  = Inr ([seqData no_conversion floatSample (mSequence (mClips gap_track ! 1)) ! 0], ok, k)"
    using A len0 by blast
  then have b: "\<exists>ok k.
         WaveTrack_Get no_conversion gap_track [9] 0 floatSample
           (GetStartSample (mClips gap_track ! 1) + int 0) 1 fillZero False
           = Inr ([3 / 4], ok, k)"
    unfolding d1 by simp
  have s: "set (seqData no_conversion floatSample (mSequence (mClips gap_track ! 0))) = {1 / 2, - (1 / 4)}"
    "set (seqData no_conversion floatSample (mSequence (mClips gap_track ! 1))) = {3 / 4, 0}"
    by (simp_all add: gap_track_def example_clip_def seqData_def blocksData_def no_conversion_def)
  show ?thesis
    using a b gap_track_wellformed rq l s by blast
qed

subsection \<open>Appending to a track\<close>

text \<open>
  Claim C3, as the code has it.  Let \<open>t0\<close> be the track, with a new clip at the offset of
  the track if it has none, and let clip \<open>i\<close> be the rightmost clip of \<open>t0\<close>: the first
  one of greatest offset.  Let this clip be in the state of \<open>clip_ok\<close>, let the conversion
  be the identity on the format of the clip, let the block files be written, and let the
  sample count stay within the signed 64-bit range.  Then \<open>Append(buffer, len)\<close> followed
  by \<open>Flush()\<close> returns, clip \<open>i\<close> keeps its offset and is the clip a further call
  would choose, and its sample count has grown by \<open>len\<close> plus the number of samples that
  were pending in its append buffer, so by exactly \<open>len\<close> when the clip was flushed.
  The samples of the clip are the former samples, then the pending ones, then the samples
  of the buffer converted to the format of the clip: the appended samples are read back
  through \<^verbatim>\<open>GetSamples\<close>, no former sample is modified, and the other clips are as
  they were.
\<close>

theorem append_flush_extends_rightmost_clip:
  assumes "t0 = (if mClips t = [] then
                   t\<lparr>mClips := [(new_WaveClip (mFormat t) (WaveTrack.mRate t))
                                    \<lparr>WaveClip.mOffset := WaveTrack.mOffset t\<rparr>]\<rparr>
                 else t)"
    and "i < length (mClips t0)"
    and "\<forall>j < length (mClips t0). WaveClip.mOffset (mClips t0 ! j) \<le> WaveClip.mOffset (mClips t0 ! i)"
    and "\<forall>j < i. WaveClip.mOffset (mClips t0 ! j) < WaveClip.mOffset (mClips t0 ! i)"
    and "clip_ok (mClips t0 ! i)"
    and "fmt = mSampleFormat (mSequence (mClips t0 ! i))"
    and "\<And>x. conv fmt fmt x = x"
    and "len \<le> length buffer"
    and "GetNumSamples (mClips t0 ! i) + int (mAppendBufferLen (mClips t0 ! i)) + int len
         \<le> 9223372036854775807"
  shows "\<exists>t1 t2.
       WaveTrack_Append conv True SetTrackLen t buffer format len = Some (Inr t1)
     \<and> WaveTrack_Flush conv True SetTrackLen t1 = Some (Inr t2)
     \<and> RightmostOrNewClip t2 = (t2, i)
     \<and> WaveClip.mOffset (mClips t2 ! i) = WaveClip.mOffset (mClips t0 ! i)
     \<and> GetNumSamples (mClips t2 ! i)
         = GetNumSamples (mClips t0 ! i) + int (mAppendBufferLen (mClips t0 ! i)) + int len
     \<and> mAppendBufferLen (mClips t2 ! i) = 0
     \<and> seqData conv fmt (mSequence (mClips t2 ! i))
         = seqData conv fmt (mSequence (mClips t0 ! i)) @ pending (mClips t0 ! i)
           @ map (conv format fmt) (take len buffer)
     \<and> (\<forall>rbuf. len \<le> length rbuf \<longrightarrow>
           (\<exists>ok. GetSamples conv (mClips t2 ! i) rbuf 0 fmt
                   (GetNumSamples (mClips t0 ! i) + int (mAppendBufferLen (mClips t0 ! i))) len True
                 = Inr (poke rbuf 0 (map (conv format fmt) (take len buffer)), ok)))
     \<and> take (nat (GetNumSamples (mClips t0 ! i))) (seqData conv fmt (mSequence (mClips t2 ! i)))
         = seqData conv fmt (mSequence (mClips t0 ! i))
     \<and> length (mClips t2) = length (mClips t0)
     \<and> (\<forall>j < length (mClips t0). j \<noteq> i \<longrightarrow> mClips t2 ! j = mClips t0 ! j)"
proof -
  define c where "c = mClips t0 ! i"
  define M where "M = map (conv format fmt) (take len buffer)"
  have rm: "RightmostOrNewClip t = (t0, i)"
    using assms(1-4) by (rule Rightmost_unique)
  obtain t1 t2 c2 where r:
    "WaveTrack_Append conv True SetTrackLen t buffer format len = Some (Inr t1)"
    "WaveTrack_Flush conv True SetTrackLen t1 = Some (Inr t2)"
    "RightmostOrNewClip t2 = (t2, i)"
    "mClips t2 = (mClips t0)[i := c2]"
    "clip_ok c2" "mAppendBufferLen c2 = 0" "mSampleFormat (mSequence c2) = fmt"
    "GetNumSamples c2 = GetNumSamples c + int (mAppendBufferLen c) + int len"
    "seqData conv fmt (mSequence c2) = seqData conv fmt (mSequence c) @ pending c @ M"
    "WaveClip.mOffset c2 = WaveClip.mOffset c"
    using WaveTrack_Append_Flush_data [where t = t and ?t0.0 = t0 and i = i and fmt = fmt
        and conv = conv and len = len and buffer = buffer and stl = SetTrackLen and format = format]
      rm assms(5-9) unfolding c_def M_def
    by blast
  have il: "i < length (mClips t0)"
    using assms(2) .
  have n2: "mClips t2 ! i = c2"
    using r(4) il by simp
  have sok: "seq_ok (mSequence c)" "seq_ok (mSequence c2)"
    using assms(5) r(5) by (simp_all add: clip_ok_def c_def)
  have cons: "consistent (mSequence c)" "consistent (mSequence c2)"
    and compl: "seqComplete (mSequence c2)"
    using sok by (simp_all add: seq_ok_def)
  have lD: "int (length (seqData conv fmt (mSequence c))) = GetNumSamples c"
    unfolding GetNumSamples_def using cons(1) by (rule length_seqData)
  have n0: "0 \<le> GetNumSamples c"
    using lD by linarith
  have lP: "length (pending c) = mAppendBufferLen c"
    using assms(5) unfolding c_def by (rule clip_ok_pending_length)
  have lM: "length M = len"
    unfolding M_def using assms(8) by simp
  have pre: "take (nat (GetNumSamples c)) (seqData conv fmt (mSequence c2))
             = seqData conv fmt (mSequence c)"
    unfolding r(9) using lD by simp
  have rb: "\<exists>ok. GetSamples conv c2 rbuf 0 fmt (GetNumSamples c + int (mAppendBufferLen c)) len True
                 = Inr (poke rbuf 0 M, ok)" if rl: "len \<le> length rbuf" for rbuf
  proof -
    have st: "0 \<le> GetNumSamples c + int (mAppendBufferLen c)"
      using n0 by linarith
    have en: "GetNumSamples c + int (mAppendBufferLen c) + int len \<le> mNumSamples (mSequence c2)"
      using r(8) by (simp add: GetNumSamples_def)
    have mt: "True \<longrightarrow> seqComplete (mSequence c2)"
      using compl by simp
    have pl: "0 + len \<le> length rbuf"
      using rl by simp
    have n63: "mNumSamples (mSequence c2) < 9223372036854775808"
      using r(8) assms(9) unfolding c_def GetNumSamples_def by linarith
    obtain ok where g: "Sequence_Get conv (mSequence c2) rbuf 0 fmt
          (GetNumSamples c + int (mAppendBufferLen c)) len True
        = Inr (poke rbuf 0 (take len (drop (nat (GetNumSamples c + int (mAppendBufferLen c)))
                 (seqData conv fmt (mSequence c2)))), ok)"
      using Sequence_Get_data [OF cons(2) st en mt pl n63, of conv fmt] by blast
    have "nat (GetNumSamples c + int (mAppendBufferLen c))
          = length (seqData conv fmt (mSequence c) @ pending c)"
      using lD lP n0 by simp
    then have "drop (nat (GetNumSamples c + int (mAppendBufferLen c)))
                 ((seqData conv fmt (mSequence c) @ pending c) @ M) = M"
      by (rule drop_length_append)
    then have "drop (nat (GetNumSamples c + int (mAppendBufferLen c))) (seqData conv fmt (mSequence c2)) = M"
      unfolding r(9) by (simp only: append_assoc)
    then show ?thesis
      unfolding GetSamples_def g using lM by simp
  qed
  have oth: "mClips t2 ! j = mClips t0 ! j" if "j < length (mClips t0)" "j \<noteq> i" for j
    using that r(4) by simp
  have ln: "length (mClips t2) = length (mClips t0)"
    using r(4) by simp
  show ?thesis
    apply (rule exI [of _ t1])
    apply (rule exI [of _ t2])
    apply (unfold n2 c_def [symmetric] M_def [symmetric])
    using r(1,2,3) r(6,8,9,10) rb pre oth ln
    apply blast
    done
qed

theorem append_flush_extends_rightmost_clip_witness:
  "mClips three_clip_track \<noteq> []
   \<and> 1 < length (mClips three_clip_track)
   \<and> WaveClip.mOffset (mClips three_clip_track ! 0) = 0
   \<and> WaveClip.mOffset (mClips three_clip_track ! 1) = 2
   \<and> WaveClip.mOffset (mClips three_clip_track ! 2) = 1
   \<and> length (mClips three_clip_track) = 3
   \<and> clip_ok (mClips three_clip_track ! 1)
   \<and> floatSample = mSampleFormat (mSequence (mClips three_clip_track ! 1))
   \<and> (\<forall>x. no_conversion floatSample floatSample x = x)
   \<and> 2 \<le> length [3 / 4, 1 :: real]
   \<and> GetNumSamples (mClips three_clip_track ! 1) = 2
   \<and> pending (mClips three_clip_track ! 1) = [1 / 8]
   \<and> seqData no_conversion floatSample (mSequence (mClips three_clip_track ! 1)) = [1 / 2, - (1 / 4)]
   \<and> (\<exists>t1 t2.
         WaveTrack_Append no_conversion True keep_envelope three_clip_track [3 / 4, 1] floatSample 2
           = Some (Inr t1)
       \<and> WaveTrack_Flush no_conversion True keep_envelope t1 = Some (Inr t2)
       \<and> GetNumSamples (mClips t2 ! 1) = 5
       \<and> seqData no_conversion floatSample (mSequence (mClips t2 ! 1))
           = [1 / 2, - (1 / 4), 1 / 8, 3 / 4, 1]
       \<and> (\<exists>ok. GetSamples no_conversion (mClips t2 ! 1) [9, 9] 0 floatSample 3 2 True
                 = Inr ([3 / 4, 1], ok))
       \<and> mClips t2 ! 0 = mClips three_clip_track ! 0
       \<and> mClips t2 ! 2 = mClips three_clip_track ! 2)"
proof -
  have o: "WaveClip.mOffset (mClips three_clip_track ! 0) = 0"
    "WaveClip.mOffset (mClips three_clip_track ! 1) = 2"
    "WaveClip.mOffset (mClips three_clip_track ! 2) = 1"
    unfolding three_clip_track_clips by (simp_all add: float_clip_def)
  have ne: "mClips three_clip_track \<noteq> []"
    using three_clip_track_clips(4) by auto
  have h1: "three_clip_track = (if mClips three_clip_track = [] then
              three_clip_track\<lparr>mClips := [(new_WaveClip (mFormat three_clip_track)
                   (WaveTrack.mRate three_clip_track))
                   \<lparr>WaveClip.mOffset := WaveTrack.mOffset three_clip_track\<rparr>]\<rparr>
            else three_clip_track)"
    using ne by simp
  have h2: "1 < length (mClips three_clip_track)"
    unfolding three_clip_track_clips(4) by simp
  have h3: "\<forall>j < length (mClips three_clip_track).
      WaveClip.mOffset (mClips three_clip_track ! j) \<le> WaveClip.mOffset (mClips three_clip_track ! 1)"
  proof (intro allI impI)
    fix j assume "j < length (mClips three_clip_track)"
    then consider "j = 0" | "j = 1" | "j = 2"
      unfolding three_clip_track_clips(4) by linarith
    then show "WaveClip.mOffset (mClips three_clip_track ! j)
                \<le> WaveClip.mOffset (mClips three_clip_track ! 1)"
      using o by cases simp_all
  qed
  have h4: "\<forall>j < 1. WaveClip.mOffset (mClips three_clip_track ! j)
                     < WaveClip.mOffset (mClips three_clip_track ! 1)"
    using o by simp
  note tr = three_clip_track_rightmost
  have h6: "floatSample = mSampleFormat (mSequence (mClips three_clip_track ! 1))"
    using tr(4) by simp
  have h7: "\<And>x. no_conversion floatSample floatSample x = x"
    by (simp add: no_conversion_def)
  have h8: "2 \<le> length [3 / 4, 1 :: real]"
    by simp
  have h9: "GetNumSamples (mClips three_clip_track ! 1)
            + int (mAppendBufferLen (mClips three_clip_track ! 1)) + int 2
            \<le> 9223372036854775807"
    unfolding tr(2,3) by simp
  obtain t1 t2 where r:
    "WaveTrack_Append no_conversion True keep_envelope three_clip_track [3 / 4, 1] floatSample 2
       = Some (Inr t1)"
    "WaveTrack_Flush no_conversion True keep_envelope t1 = Some (Inr t2)"
    "GetNumSamples (mClips t2 ! 1)
       = GetNumSamples (mClips three_clip_track ! 1)
         + int (mAppendBufferLen (mClips three_clip_track ! 1)) + int 2"
    "seqData no_conversion floatSample (mSequence (mClips t2 ! 1))
       = seqData no_conversion floatSample (mSequence (mClips three_clip_track ! 1))
         @ pending (mClips three_clip_track ! 1)
         @ map (no_conversion floatSample floatSample) (take 2 [3 / 4, 1])"
    "\<forall>rbuf. 2 \<le> length rbuf \<longrightarrow>
           (\<exists>ok. GetSamples no_conversion (mClips t2 ! 1) rbuf 0 floatSample
                   (GetNumSamples (mClips three_clip_track ! 1)
                    + int (mAppendBufferLen (mClips three_clip_track ! 1))) 2 True
                 = Inr (poke rbuf 0 (map (no_conversion floatSample floatSample) (take 2 [3 / 4, 1])), ok))"
    "\<forall>j < length (mClips three_clip_track). j \<noteq> 1 \<longrightarrow> mClips t2 ! j = mClips three_clip_track ! j"
    using append_flush_extends_rightmost_clip [where t = three_clip_track
        and ?t0.0 = three_clip_track and i = 1 and fmt = floatSample and conv = no_conversion
        and len = 2 and buffer = "[3 / 4, 1]" and SetTrackLen = keep_envelope
        and format = floatSample, OF h1 h2 h3 h4 tr(1) h6 h7 h8 h9]
    by blast
  have a: "GetNumSamples (mClips t2 ! 1) = 5"
    using r(3) unfolding tr(2,3) by simp
  have m: "map (no_conversion floatSample floatSample) (take 2 [3 / 4, 1]) = [3 / 4, 1]"
    by (simp add: no_conversion_def)
  have b: "seqData no_conversion floatSample (mSequence (mClips t2 ! 1))
           = [1 / 2, - (1 / 4), 1 / 8, 3 / 4, 1]"
    using r(4) unfolding tr(5,6) m by simp
  have l9: "2 \<le> length [9, 9 :: real]"
    by simp
  have "\<exists>ok. GetSamples no_conversion (mClips t2 ! 1) [9, 9] 0 floatSample
                   (GetNumSamples (mClips three_clip_track ! 1)
                    + int (mAppendBufferLen (mClips three_clip_track ! 1))) 2 True
                 = Inr (poke [9, 9] 0 (map (no_conversion floatSample floatSample) (take 2 [3 / 4, 1])), ok)"
    using r(5) l9 by blast
  then have c: "\<exists>ok. GetSamples no_conversion (mClips t2 ! 1) [9, 9] 0 floatSample 3 2 True
                 = Inr ([3 / 4, 1], ok)"
    unfolding tr(2,3) m by (simp add: poke_def)
  have d: "mClips t2 ! 0 = mClips three_clip_track ! 0" "mClips t2 ! 2 = mClips three_clip_track ! 2"
    using r(6) unfolding three_clip_track_clips(4) by simp_all
  have e: "\<exists>t1 t2.
         WaveTrack_Append no_conversion True keep_envelope three_clip_track [3 / 4, 1] floatSample 2
           = Some (Inr t1)
       \<and> WaveTrack_Flush no_conversion True keep_envelope t1 = Some (Inr t2)
       \<and> GetNumSamples (mClips t2 ! 1) = 5
       \<and> seqData no_conversion floatSample (mSequence (mClips t2 ! 1))
           = [1 / 2, - (1 / 4), 1 / 8, 3 / 4, 1]
       \<and> (\<exists>ok. GetSamples no_conversion (mClips t2 ! 1) [9, 9] 0 floatSample 3 2 True
                 = Inr ([3 / 4, 1], ok))
       \<and> mClips t2 ! 0 = mClips three_clip_track ! 0
       \<and> mClips t2 ! 2 = mClips three_clip_track ! 2"
    using r(1,2) a b c d by blast
  show ?thesis
    using ne h2 o three_clip_track_clips(4) tr(1,2,5,6) h6 h7 h8 e by blast
qed

text \<open>
  The append buffer holds samples between calls: on a new float track,
  \<open>Append\<close> of one sample leaves it pending, and a second \<open>Append\<close> of one sample
  followed by \<open>Flush\<close> raises the sample count of the clip from 0 to 2.  When the block
  file cannot be written, the same \<open>Flush\<close> raises \<open>FileException\<close>.
\<close>

theorem append_flush_adds_pending:
  "WaveTrack_Append no_conversion True keep_envelope (new_WaveTrack floatSample 44100) [1 / 2] floatSample 1
     = Some (Inr (single_clip_track (float_clip (1 / 2 # replicate 262143 0) 1 [] 0)))
   \<and> RightmostOrNewClip (single_clip_track (float_clip (1 / 2 # replicate 262143 0) 1 [] 0))
       = (single_clip_track (float_clip (1 / 2 # replicate 262143 0) 1 [] 0), 0)
   \<and> GetNumSamples (mClips (single_clip_track (float_clip (1 / 2 # replicate 262143 0) 1 [] 0)) ! 0) = 0
   \<and> WaveTrack_Append no_conversion True keep_envelope
        (single_clip_track (float_clip (1 / 2 # replicate 262143 0) 1 [] 0)) [1 / 4] floatSample 1
     = Some (Inr (single_clip_track (float_clip (1 / 2 # 1 / 4 # replicate 262142 0) 2 [] 0)))
   \<and> WaveTrack_Flush no_conversion True keep_envelope
        (single_clip_track (float_clip (1 / 2 # 1 / 4 # replicate 262142 0) 2 [] 0))
     = Some (Inr (single_clip_track (float_clip (1 / 2 # 1 / 4 # replicate 262142 0) 0
          [\<lparr>sb_f = Simple 2 floatSample (Some [1 / 2, 1 / 4]), sb_start = 0\<rparr>] 2)))
   \<and> GetNumSamples (mClips (single_clip_track (float_clip (1 / 2 # 1 / 4 # replicate 262142 0) 0
          [\<lparr>sb_f = Simple 2 floatSample (Some [1 / 2, 1 / 4]), sb_start = 0\<rparr>] 2)) ! 0) = 2
   \<and> WaveTrack_Flush no_conversion False keep_envelope
        (single_clip_track (float_clip (1 / 2 # 1 / 4 # replicate 262142 0) 2 [] 0))
     = Some (Inl FileException)"
  using fresh_append pending_append pending_flush pending_flush_unwritten
  by (simp add: RightmostOrNewClip_def single_clip_track_def float_clip_def GetNumSamples_def)

end
